theory Spec2Isabelle
  imports Main "HOL-Library.Word"
begin

unbundle bit_operations_syntax

section \<open>JavaScript strings and the string primitives the code uses\<close>

text \<open>
  A JavaScript string is a sequence of UTF-16 code units.  Indices are JavaScript numbers;
  the ones occurring here are integers, possibly negative (\<open>indexOf\<close> answers \<open>-1\<close>) or past
  the end of the string, so they are modelled as \<open>int\<close> and every primitive spells out what
  ECMAScript does out of range.
\<close>

type_synonym jsstring = "16 word list"

definition clampIndex :: "int \<Rightarrow> int \<Rightarrow> int" where
  \<comment> \<open>relative index of \<open>String.prototype.slice\<close>: negative counts from the end\<close>
  "clampIndex len i = (if i < 0 then max (len + i) 0 else min i len)"

definition slice :: "jsstring \<Rightarrow> int \<Rightarrow> int \<Rightarrow> jsstring" where
  \<comment> \<open>\<open>text.slice(a, b)\<close>\<close>
  "slice text a b =
     (let len = int (length text); from = clampIndex len a; to = clampIndex len b
      in take (nat (max (to - from) 0)) (drop (nat from) text))"

definition charCodeAt :: "jsstring \<Rightarrow> int \<Rightarrow> 16 word option" where
  \<comment> \<open>\<open>text.charCodeAt(i)\<close>; \<open>None\<close> stands for \<open>NaN\<close>\<close>
  "charCodeAt text i =
     (if 0 \<le> i \<and> i < int (length text) then Some (text ! nat i) else None)"

fun indexFrom :: "16 word \<Rightarrow> jsstring \<Rightarrow> nat \<Rightarrow> int" where
  "indexFrom c [] k = -1"
| "indexFrom c (x # xs) k = (if x = c then int k else indexFrom c xs (Suc k))"

definition indexOf :: "jsstring \<Rightarrow> 16 word \<Rightarrow> int \<Rightarrow> int" where
  \<comment> \<open>\<open>text.indexOf(c, from)\<close> for a one-character search string \<open>c\<close>:
      the start is clamped to \<open>[0, length]\<close>, the answer is \<open>-1\<close> when there is no match\<close>
  "indexOf text c from =
     (let k = nat (min (max from 0) (int (length text)))
      in indexFrom c (drop k text) k)"

definition isHighSurrogate :: "16 word \<Rightarrow> bool" where
  "isHighSurrogate c = (0xD800 \<le> c \<and> c \<le> 0xDBFF)"

definition isLowSurrogate :: "16 word \<Rightarrow> bool" where
  "isLowSurrogate c = (0xDC00 \<le> c \<and> c \<le> 0xDFFF)"

definition surrogatePair :: "16 word \<Rightarrow> 16 word \<Rightarrow> nat" where
  \<comment> \<open>\<open>UTF16SurrogatePairToCodePoint\<close>\<close>
  "surrogatePair hi lo = (unat hi - 0xD800) * 0x400 + (unat lo - 0xDC00) + 0x10000"

definition codePointAt :: "jsstring \<Rightarrow> int \<Rightarrow> nat option" where
  \<comment> \<open>\<open>str.codePointAt(i)\<close>; \<open>None\<close> stands for \<open>undefined\<close>\<close>
  "codePointAt str i =
     (if 0 \<le> i \<and> i < int (length str) then
        (let first = str ! nat i in
         if isHighSurrogate first \<and> i + 1 < int (length str)
            \<and> isLowSurrogate (str ! nat (i + 1))
         then Some (surrogatePair first (str ! nat (i + 1)))
         else Some (unat first))
      else None)"

definition digitChar :: "nat \<Rightarrow> 16 word" where
  "digitChar d = of_nat (48 + d)"

fun toString10 :: "nat \<Rightarrow> jsstring" where
  \<comment> \<open>\<open>n.toString(10)\<close> of a non-negative integer\<close>
  "toString10 n = (if n < 10 then [digitChar n] else toString10 (n div 10) @ [digitChar (n mod 10)])"

declare toString10.simps [simp del]

section \<open>The UTF-8 byte encoder (\<open>transformation/utils/utf8.ts\<close>)\<close>

text \<open>
  Bytes and code points are non-negative JavaScript numbers below \<open>2 ^ 31\<close>, where the
  32-bit operators \<open>|\<close>, \<open>&\<close> and \<open>>>\<close> agree with the operations on \<open>nat\<close>.
\<close>

definition byteToString :: "nat \<Rightarrow> jsstring" where
  "byteToString byte = 92 # toString10 byte"

definition encodeByte :: "nat \<Rightarrow> jsstring" where
  "encodeByte byte = byteToString (0x80 OR (byte AND 0x3F))"

definition encodeCodePoint :: "nat \<Rightarrow> jsstring" where
  "encodeCodePoint val =
     (let chunk =
        (if val < 0x800 then byteToString (0xC0 OR (drop_bit 6 val AND 0x3F))
         else if val < 0x10000 then
           byteToString (0xE0 OR (drop_bit 12 val AND 0x1F)) @ encodeByte (drop_bit 6 val)
         else
           byteToString (0xF0 OR (drop_bit 18 val AND 0x0F)) @ encodeByte (drop_bit 12 val)
             @ encodeByte (drop_bit 6 val))
      in chunk @ encodeByte val)"

record utf8_state =
  u_head :: int
  u_tail :: int
  u_buffer :: jsstring

function encodeUTF8_loop :: "jsstring \<Rightarrow> utf8_state \<Rightarrow> utf8_state" where
  "encodeUTF8_loop str s =
     (if u_tail s < int (length str) then
        (case codePointAt str (u_tail s) of
           None \<Rightarrow> encodeUTF8_loop str (s\<lparr>u_tail := u_tail s + 1\<rparr>)
         | Some codePoint \<Rightarrow>
            (if codePoint > 0xFF then
               (let s1 = s\<lparr>u_buffer := u_buffer s @ slice str (u_head s) (u_tail s)\<rparr>;
                    s2 = (if codePoint < 0xDC00 \<or> codePoint > 0xDFFF
                          then s1\<lparr>u_buffer := u_buffer s1 @ encodeCodePoint codePoint\<rparr>
                          else s1);
                    s3 = s2\<lparr>u_head := u_tail s2 + 1\<rparr>
                in encodeUTF8_loop str (s3\<lparr>u_tail := u_tail s3 + 1\<rparr>))
             else encodeUTF8_loop str (s\<lparr>u_tail := u_tail s + 1\<rparr>)))
      else s)"
  by pat_completeness auto
termination
  by (relation "measure (\<lambda>(str, s). nat (int (length str) - u_tail s))") auto

declare encodeUTF8_loop.simps [simp del]

definition encodeUTF8 :: "jsstring \<Rightarrow> jsstring" where
  "encodeUTF8 str =
     (let s = encodeUTF8_loop str \<lparr>u_head = 0, u_tail = 0, u_buffer = []\<rparr>
      in u_buffer s @ slice str (u_head s) (u_tail s))"

section \<open>The escape sequence transformer\<close>

subsection \<open>Collaborators\<close>

text \<open>
  Modelled from the spec: the enumeration \<open>LuaTarget\<close> of \<open>CompilerOptions\<close>, which is not
  among the sources at hand: one of a small closed set of target-dialect identifiers.
  The transformer names three of its members, \<open>Lua50\<close>, \<open>Lua51\<close> and \<open>Lua52\<close>; every other
  member is told apart only by not being one of them and is kept here under its string
  value.
\<close>

datatype LuaTarget = Lua50 | Lua51 | Lua52 | OtherTarget string

text \<open>
  The nodes of the TypeScript compiler that a \<open>StringNode\<close> can be, and what the
  transformer reads of one: its kind, \<open>pos\<close>, whether \<open>flags & NodeFlags.Synthesized\<close> is
  set, \<open>text\<close>, the result of \<open>getText()\<close>, and \<open>rawText\<close> (which may be undefined).
\<close>

datatype SyntaxKind =
  StringLiteral | NoSubstitutionTemplateLiteral | TemplateHead | TemplateMiddle | TemplateTail

record StringNode =
  kind :: SyntaxKind
  pos :: int
  flagsSynthesized :: bool
  nodeText :: jsstring
  getText :: jsstring
  rawText :: "jsstring option"

text \<open>
  Modelled from the spec: \<open>unsupportedUnicodeEscape\<close> of \<open>utils/diagnostics\<close> and the
  \<open>TransformationContext\<close> of \<open>context\<close>, neither among the sources at hand.  A diagnostic is
  an issue kind with the source node and the target; the context gives the active target
  and holds the sink, to which \<open>push\<close> appends.
\<close>

datatype Diagnostic = unsupportedUnicodeEscape StringNode LuaTarget

record TransformationContext =
  luaTarget :: LuaTarget
  diagnostics :: "Diagnostic list"

subsection \<open>\<open>Number("0x" + s)\<close> and number formatting\<close>

definition isHexDigit :: "16 word \<Rightarrow> bool" where
  "isHexDigit c = ((48 \<le> c \<and> c \<le> 57) \<or> (65 \<le> c \<and> c \<le> 70) \<or> (97 \<le> c \<and> c \<le> 102))"

definition hexDigitValue :: "16 word \<Rightarrow> nat" where
  "hexDigitValue c =
     (if c \<le> 57 then unat c - 48 else if c \<le> 70 then unat c - 55 else unat c - 87)"

definition isStrWhiteSpaceChar :: "16 word \<Rightarrow> bool" where
  \<comment> \<open>ECMAScript \<open>WhiteSpace\<close> and \<open>LineTerminator\<close> code units\<close>
  "isStrWhiteSpaceChar c =
     (List.member [0x09, 0x0A, 0x0B, 0x0C, 0x0D, 0x20, 0xA0, 0x1680, 0x2028, 0x2029,
                   0x202F, 0x205F, 0x3000, 0xFEFF] c
      \<or> (0x2000 \<le> c \<and> c \<le> 0x200A))"

definition hexValue :: "jsstring \<Rightarrow> nat" where
  "hexValue ds = foldl (\<lambda>acc d. 16 * acc + hexDigitValue d) 0 ds"

definition NumberOfHex :: "jsstring \<Rightarrow> nat option" where
  \<comment> \<open>\<open>Number("0x" + s)\<close>: the string is a numeric literal only as \<open>0x\<close>, one or more
      hexadecimal digits, then white space to the end; \<open>None\<close> stands for \<open>NaN\<close>.
      (The slices converted here hold at most two characters, far below the precision
      limit of a JavaScript number.)\<close>
  "NumberOfHex s =
     (let ds = takeWhile isHexDigit s; rest = dropWhile isHexDigit s
      in if ds \<noteq> [] \<and> list_all isStrWhiteSpaceChar rest then Some (hexValue ds) else None)"

definition numberToString :: "nat option \<Rightarrow> jsstring" where
  \<comment> \<open>the number in a template string: decimal digits, or \<open>NaN\<close>\<close>
  "numberToString v = (case v of None \<Rightarrow> [78, 97, 78] | Some n \<Rightarrow> toString10 n)"

subsection \<open>\<open>createTransformer\<close> and its closures\<close>

definition unsupportedUnicodeTargets :: "LuaTarget list" where
  "unsupportedUnicodeTargets = [Lua50, Lua51, Lua52]"

definition unsupportedHexTargets :: "LuaTarget list" where
  "unsupportedHexTargets = [Lua50, Lua51]"

text \<open>
  The environment of the closures that \<open>createTransformer(target)\<close> creates: its parameter
  and its three variables, which live as long as the transformer does.
\<close>

record Transformer =
  target :: LuaTarget
  head :: int
  start :: int
  buffer :: jsstring

definition createTransformer :: "LuaTarget \<Rightarrow> Transformer" where
  "createTransformer t = \<lparr>target = t, head = 0, start = 0, buffer = []\<rparr>"

definition bufferAppend :: "jsstring \<Rightarrow> jsstring \<Rightarrow> int \<Rightarrow> int \<Rightarrow> Transformer \<Rightarrow> Transformer" where
  "bufferAppend text token end nextHead s =
     s\<lparr>buffer := buffer s @ slice text (start s) end @ token,
       head := nextHead, start := nextHead\<rparr>"

definition transformHexEscape :: "jsstring \<Rightarrow> Transformer \<Rightarrow> bool \<times> Transformer" where
  "transformHexEscape text s =
     (let nextHead = head s + 3;
          decimal = NumberOfHex (slice text (head s + 1) nextHead)
      in (True, bufferAppend text (92 # numberToString decimal) (head s - 1) nextHead s))"

definition transformUnicodeEscape :: "jsstring \<Rightarrow> Transformer \<Rightarrow> bool \<times> Transformer" where
  "transformUnicodeEscape text s =
     (let s1 = s\<lparr>head := head s + 1\<rparr> in
      if charCodeAt text (head s1) = Some 123 then (True, s1)
      else
        (let next = head s1 + 4
         in (True, bufferAppend text ([92, 117, 123] @ slice text (head s1) next @ [125])
                     (head s1 - 2) next s1)))"

definition parseUnicodeEscape ::
  "jsstring \<Rightarrow> StringNode \<Rightarrow> Transformer \<Rightarrow> TransformationContext
     \<Rightarrow> bool \<times> Transformer \<times> TransformationContext" where
  "parseUnicodeEscape text node s context =
     (if \<not> List.member unsupportedUnicodeTargets (target s) then
        (case transformUnicodeEscape text s of (ok, s') \<Rightarrow> (ok, s', context))
      else
        (False, s,
         context\<lparr>diagnostics := diagnostics context @ [unsupportedUnicodeEscape node (target s)]\<rparr>))"

definition parseHexEscape :: "jsstring \<Rightarrow> Transformer \<Rightarrow> bool \<times> Transformer" where
  "parseHexEscape text s =
     (if List.member unsupportedHexTargets (target s) then transformHexEscape text s
      else (True, s\<lparr>head := head s + 1\<rparr>))"

definition parseEscapeSequence ::
  "jsstring \<Rightarrow> StringNode \<Rightarrow> Transformer \<Rightarrow> TransformationContext
     \<Rightarrow> bool \<times> Transformer \<times> TransformationContext" where
  "parseEscapeSequence text node s context =
     (let s1 = s\<lparr>head := head s + 1\<rparr> in
      if charCodeAt text (head s1) = Some 120 then
        (case parseHexEscape text s1 of (ok, s') \<Rightarrow> (ok, s', context))
      else if charCodeAt text (head s1) = Some 117 then
        parseUnicodeEscape text node s1 context
      else (True, s1\<lparr>head := head s1 + 1\<rparr>, context))"

text \<open>
  The loop \<open>while ((head = text.indexOf("\\", head)) >= 0) { if (!parseEscapeSequence(\<dots>))
  { start = textStart; break; } }\<close>.
\<close>

function scanLoop ::
  "jsstring \<Rightarrow> StringNode \<Rightarrow> int \<Rightarrow> Transformer \<Rightarrow> TransformationContext
     \<Rightarrow> Transformer \<times> TransformationContext" where
  "scanLoop text node textStart s context =
     (let s1 = s\<lparr>head := indexOf text 92 (head s)\<rparr> in
      if head s1 \<ge> 0 then
        (case parseEscapeSequence text node s1 context of
           (ok, s2, context2) \<Rightarrow>
             if \<not> ok then (s2\<lparr>start := textStart\<rparr>, context2)
             else scanLoop text node textStart s2 context2)
      else (s1, context))"
  by pat_completeness auto
termination scanLoop
proof -
  have from_bounds:
    "indexFrom c xs k = -1 \<or> (int k \<le> indexFrom c xs k \<and> indexFrom c xs k < int k + int (length xs))"
    for c xs k
  proof (induction xs arbitrary: k)
    case Nil
    show ?case by simp
  next
    case (Cons x xs)
    from Cons[of "Suc k"] show ?case by auto
  qed
  have found_in_range: "indexOf t c i < int (length t)" if "0 \<le> indexOf t c i" for t c i
  proof -
    define k where "k = nat (min (max i 0) (int (length t)))"
    have "indexOf t c i = indexFrom c (drop k t) k"
      by (simp add: indexOf_def k_def Let_def)
    moreover have "k \<le> length t" by (simp add: k_def)
    ultimately show ?thesis using from_bounds[of c "drop k t" k] that by auto
  qed
  have found_not_before: "i \<le> indexOf t c i" if "0 \<le> indexOf t c i" for t c i
  proof -
    define k where "k = nat (min (max i 0) (int (length t)))"
    have r: "indexOf t c i = indexFrom c (drop k t) k"
      by (simp add: indexOf_def k_def Let_def)
    then have "int k \<le> indexOf t c i" using from_bounds[of c "drop k t" k] that by auto
    moreover have "k < length t" using found_in_range[OF that] calculation by linarith
    then have "i \<le> int k" unfolding k_def by linarith
    ultimately show ?thesis by linarith
  qed
  have hex: "ok \<and> head s < head s'" if "parseHexEscape t s = (ok, s')" for t s ok s'
    using that
    by (auto simp: parseHexEscape_def transformHexEscape_def bufferAppend_def Let_def
        split: if_splits)
  have uni: "head s < head s'" if "parseUnicodeEscape t node s c = (True, s', c')"
    for t node s c s' c'
    using that
    by (auto simp: parseUnicodeEscape_def transformUnicodeEscape_def bufferAppend_def Let_def
        split: if_splits)
  have advance: "head s < head s2"
    if "(True, s2, c2) = parseEscapeSequence t node s c" for t node s c s2 c2
    using that [symmetric] unfolding parseEscapeSequence_def Let_def
    by (auto dest!: hex uni split: if_splits prod.splits)
  have decreases:
    "nat (int (length t) - max 0 (head s2)) < nat (int (length t) - max 0 (head s))"
    if "0 \<le> indexOf t 92 (head s)"
      and "(True, s2, c2) = parseEscapeSequence t node (s\<lparr>head := indexOf t 92 (head s)\<rparr>) c"
    for t node s c s2 c2
    using advance[OF that(2)] found_in_range[OF that(1)] found_not_before[OF that(1)] that(1)
    by (auto simp: max_def)
  show ?thesis
    by (relation "measure (\<lambda>(t, node, textStart, s, c). nat (int (length t) - max 0 (head s)))")
       (auto intro: decreases)
qed

declare scanLoop.simps [simp del]

text \<open>
  The function that \<open>createTransformer\<close> returns.  \<open>literalText\<close> is its block
  ``extract node text and its positions'': the text scanned, \<open>textStart\<close> and \<open>textEnd\<close>.
\<close>

definition literalText :: "StringNode \<Rightarrow> jsstring \<times> int \<times> int" where
  "literalText node =
     (if kind node = StringLiteral then
        (if flagsSynthesized node then (nodeText node, 0, int (length (nodeText node)))
         else (getText node, 1, int (length (getText node)) - 1))
      else
        (let text = (case rawText node of None \<Rightarrow> [] | Some raw \<Rightarrow> raw)
         in (text, 0, int (length text))))"

definition runTransformer ::
  "Transformer \<Rightarrow> StringNode \<Rightarrow> TransformationContext
     \<Rightarrow> jsstring \<times> Transformer \<times> TransformationContext" where
  "runTransformer s node context =
     (if pos node = -1 then (nodeText node, s, context)
      else
        (case literalText node of
           (text, textStart, textEnd) \<Rightarrow>
             if text = [] then ([], s, context)
             else
               (case scanLoop text node textStart
                       (s\<lparr>head := textStart, start := textStart, buffer := []\<rparr>) context of
                  (s', context') \<Rightarrow>
                    ((if start s' \<noteq> textStart then buffer s' else [])
                       @ slice text (start s') textEnd,
                     s'\<lparr>buffer := []\<rparr>, context'))))"

subsection \<open>The cache and \<open>transformEscapeSequences\<close>\<close>



section \<open>Auxiliary definitions for the proofs\<close>

subsection \<open>The encoder as a recursion over the remaining code units\<close>

text \<open>
  \<open>codePointOf c rest\<close> is what \<open>codePointAt\<close> answers at a code unit \<open>c\<close> followed by
  \<open>rest\<close>; \<open>encodeUnits\<close> is the loop of \<open>encodeUTF8\<close> read off one code unit at a time.
  \<open>encodeUTF8_eq\<close> below proves that the loop computes it.
\<close>

definition codePointOf :: "16 word \<Rightarrow> jsstring \<Rightarrow> nat" where
  "codePointOf c rest =
     (case rest of
        lo # _ \<Rightarrow> if isHighSurrogate c \<and> isLowSurrogate lo then surrogatePair c lo else unat c
      | [] \<Rightarrow> unat c)"

fun encodeUnits :: "jsstring \<Rightarrow> jsstring" where
  "encodeUnits [] = []"
| "encodeUnits (c # xs) =
     (let cp = codePointOf c xs in
      if cp > 0xFF then
        (if cp < 0xDC00 \<or> cp > 0xDFFF then encodeCodePoint cp else []) @ encodeUnits xs
      else c # encodeUnits xs)"

definition finish :: "jsstring \<Rightarrow> utf8_state \<Rightarrow> jsstring" where
  "finish str s = u_buffer s @ slice str (u_head s) (u_tail s)"

subsection \<open>The encoder as the specification words it\<close>

text \<open>
  The UTF-8 encoding of a code point by arithmetic: the two-byte form below \<open>0x800\<close>, the
  three-byte form below \<open>0x10000\<close>, the four-byte form otherwise, every continuation byte
  \<open>0b10xxxxxx\<close>; and a byte sequence as decimal escapes, \<open>\ddd\<close> per byte.
\<close>

definition utf8Bytes :: "nat \<Rightarrow> nat list" where
  "utf8Bytes cp =
     (if cp < 0x800 then [0xC0 + cp div 0x40, 0x80 + cp mod 0x40]
      else if cp < 0x10000 then
        [0xE0 + cp div 0x1000, 0x80 + cp div 0x40 mod 0x40, 0x80 + cp mod 0x40]
      else
        [0xF0 + cp div 0x40000, 0x80 + cp div 0x1000 mod 0x40,
         0x80 + cp div 0x40 mod 0x40, 0x80 + cp mod 0x40])"

definition byteEscapes :: "nat list \<Rightarrow> jsstring" where
  "byteEscapes bs = concat (map (\<lambda>b. 92 # toString10 b) bs)"

text \<open>
  A string read by code point with the standard forward decoder: a high surrogate followed
  by a low one is one code point, any other code unit is a code point by itself.  Each
  code point comes with the code units it was read from.
\<close>

fun codePoints :: "jsstring \<Rightarrow> (nat \<times> jsstring) list" where
  "codePoints [] = []"
| "codePoints [c] = [(unat c, [c])]"
| "codePoints (c # d # xs) =
     (if isHighSurrogate c \<and> isLowSurrogate d
      then (surrogatePair c d, [c, d]) # codePoints xs
      else (unat c, [c]) # codePoints (d # xs))"

text \<open>
  \<open>encodeAsClaimed\<close>: every code point above \<open>0xFF\<close> becomes the escapes of its UTF-8
  bytes, every other one stays.  \<open>encodeSkippingLow\<close>: the same, except that a code point
  in \<open>0xDC00..0xDFFF\<close> (a low surrogate outside a pair) is dropped.
\<close>

definition encodeAsClaimed :: "jsstring \<Rightarrow> jsstring" where
  "encodeAsClaimed str =
     concat (map (\<lambda>(cp, units). if cp > 0xFF then byteEscapes (utf8Bytes cp) else units)
                 (codePoints str))"

definition encodeSkippingLow :: "jsstring \<Rightarrow> jsstring" where
  "encodeSkippingLow str =
     concat (map (\<lambda>(cp, units).
                    if cp > 0xFF then
                      (if 0xDC00 \<le> cp \<and> cp \<le> 0xDFFF then [] else byteEscapes (utf8Bytes cp))
                    else units)
                 (codePoints str))"

subsection \<open>The scan as a recursion over the remaining text\<close>

text \<open>
  \<open>rewriteFrom t pending rest\<close> follows the loop of the transformer for target \<open>t\<close> from a
  position where \<open>rest\<close> is the text still ahead of \<open>head\<close> and \<open>pending\<close> is the chunk
  between \<open>start\<close> and \<open>head\<close>.  It answers \<open>None\<close> when the scan is aborted, and otherwise
  what the loop appends to \<open>buffer\<close> together with the chunk left between \<open>start\<close> and the
  end of the text.  \<open>scanLoop_rewriteFrom\<close> below proves that the loop computes it.
\<close>

fun rewriteFrom :: "LuaTarget \<Rightarrow> jsstring \<Rightarrow> jsstring \<Rightarrow> (jsstring \<times> jsstring) option" where
  "rewriteFrom t pending [] = Some ([], pending)"
| "rewriteFrom t pending [c] = Some ([], pending @ [c])"
| "rewriteFrom t pending (c # d # ys) =
     (if c \<noteq> 92 then rewriteFrom t (pending @ [c]) (d # ys)
      else if d = 120 then
        (if List.member unsupportedHexTargets t then
           (case rewriteFrom t [] (drop 2 ys) of
              None \<Rightarrow> None
            | Some (flushed, rest) \<Rightarrow>
                Some (pending @ 92 # numberToString (NumberOfHex (take 2 ys)) @ flushed, rest))
         else rewriteFrom t (pending @ [92, 120]) ys)
      else if d = 117 then
        (if List.member unsupportedUnicodeTargets t then None
         else if (case ys of [] \<Rightarrow> False | e # _ \<Rightarrow> e = 123) then
           rewriteFrom t (pending @ [92, 117]) ys
         else
           (case rewriteFrom t [] (drop 4 ys) of
              None \<Rightarrow> None
            | Some (flushed, rest) \<Rightarrow>
                Some (pending @ [92, 117, 123] @ take 4 ys @ [125] @ flushed, rest)))
      else rewriteFrom t (pending @ [92, d]) ys)"

text \<open>
  What \<open>scanLoop\<close> has done when it returns, in terms of \<open>rewriteFrom\<close>: after an abort
  \<open>start\<close> is back at \<open>textStart\<close> and one diagnostic has been pushed; otherwise the context
  is untouched, \<open>buffer\<close> has grown by the flushed text and the text from \<open>start\<close> on is the
  chunk left.
\<close>

definition scanResult ::
  "jsstring \<Rightarrow> StringNode \<Rightarrow> int \<Rightarrow> LuaTarget \<Rightarrow> int \<Rightarrow> jsstring \<Rightarrow> TransformationContext
     \<Rightarrow> (jsstring \<times> jsstring) option \<Rightarrow> Transformer \<times> TransformationContext \<Rightarrow> bool" where
  "scanResult T node ts t s b c r out =
     (case out of
        (st', c') \<Rightarrow>
          target st' = t \<and>
          (case r of
             None \<Rightarrow>
               start st' = ts
               \<and> c' = c\<lparr>diagnostics := diagnostics c @ [unsupportedUnicodeEscape node t]\<rparr>
           | Some (f, q) \<Rightarrow>
               c' = c \<and> buffer st' = b @ f \<and> slice T (start st') (int (length T)) = q
               \<and> s \<le> start st' \<and> (start st' = s \<longrightarrow> f = [])))"

section \<open>Literals and tokens, as the claims speak of them\<close>

text \<open>
  A literal as a sequence of tokens: a plain character (any code unit but the backslash),
  an escape \<open>\c\<close> that is neither \<open>\x\<close> nor \<open>\u\<close>, a hex escape \<open>\xHH\<close> with two
  hexadecimal digits, a bare Unicode escape \<open>\u\<close> with four payload characters of which
  the first is not an opening brace, and the opening \<open>\u{\<close> of a braced Unicode escape
  (its payload and closing brace are plain characters).
\<close>

datatype token =
  Chr "16 word" | Esc "16 word" | HexEsc "16 word" "16 word"
  | UniEsc "16 word" "16 word" "16 word" "16 word" | UniBrace

fun tokenSource :: "token \<Rightarrow> jsstring" where
  "tokenSource (Chr c) = [c]"
| "tokenSource (Esc d) = [92, d]"
| "tokenSource (HexEsc a b) = [92, 120, a, b]"
| "tokenSource (UniEsc a b c d) = [92, 117, a, b, c, d]"
| "tokenSource UniBrace = [92, 117, 123]"

fun wellFormed :: "token \<Rightarrow> bool" where
  "wellFormed (Chr c) = (c \<noteq> 92)"
| "wellFormed (Esc d) = (d \<noteq> 120 \<and> d \<noteq> 117)"
| "wellFormed (HexEsc a b) = (isHexDigit a \<and> isHexDigit b)"
| "wellFormed (UniEsc a b c d) = (a \<noteq> 123)"
| "wellFormed UniBrace = True"

fun isUnicodeEscape :: "token \<Rightarrow> bool" where
  "isUnicodeEscape (UniEsc a b c d) = True"
| "isUnicodeEscape UniBrace = True"
| "isUnicodeEscape _ = False"

definition sourceText :: "token list \<Rightarrow> jsstring" where
  "sourceText toks = concat (map tokenSource toks)"

text \<open>
  The token as the specification has it rewritten for a target: \<open>\xHH\<close> becomes the decimal
  escape of its value where the target has no hex escapes, \<open>\uHHHH\<close> becomes \<open>\u{HHHH}\<close>
  where the target has Unicode escapes, everything else stays as written.
\<close>

fun tokenTarget :: "LuaTarget \<Rightarrow> token \<Rightarrow> jsstring" where
  "tokenTarget t (HexEsc a b) =
     (if List.member unsupportedHexTargets t
      then 92 # toString10 (16 * hexDigitValue a + hexDigitValue b)
      else [92, 120, a, b])"
| "tokenTarget t (UniEsc a b c d) =
     (if List.member unsupportedUnicodeTargets t then [92, 117, a, b, c, d]
      else [92, 117, 123, a, b, c, d, 125])"
| "tokenTarget t tok = tokenSource tok"

definition rewrittenText :: "LuaTarget \<Rightarrow> token list \<Rightarrow> jsstring" where
  "rewrittenText t toks = concat (map (tokenTarget t) toks)"

text \<open>The rewriting of Unicode escapes alone: a bare escape is braced.\<close>

fun tokenBraced :: "token \<Rightarrow> jsstring" where
  "tokenBraced (UniEsc a b c d) = [92, 117, 123, a, b, c, d, 125]"
| "tokenBraced tok = tokenSource tok"

definition bracedText :: "token list \<Rightarrow> jsstring" where
  "bracedText toks = concat (map tokenBraced toks)"

text \<open>
  The tokens that the scan for target \<open>t\<close> passes over without meeting a Unicode escape:
  a plain character, an escape \<open>\c\<close> other than \<open>\u\<close> (and other than \<open>\x\<close> where the
  target rewrites hex escapes), and \<open>\x\<close> with the two characters after it, which the scan
  consumes whatever they are where the target rewrites hex escapes, and reads as plain
  characters where it does not.
\<close>

fun passedOver :: "LuaTarget \<Rightarrow> token \<Rightarrow> bool" where
  "passedOver t (Chr c) = (c \<noteq> 92)"
| "passedOver t (Esc d) = (d \<noteq> 117 \<and> (d \<noteq> 120 \<or> \<not> List.member unsupportedHexTargets t))"
| "passedOver t (HexEsc a b) = (List.member unsupportedHexTargets t \<or> (a \<noteq> 92 \<and> b \<noteq> 92))"
| "passedOver t (UniEsc a b c d) = False"
| "passedOver t UniBrace = False"

text \<open>
  \<open>literalSpan node\<close> is the original literal span, the text between \<open>textStart\<close> and
  \<open>textEnd\<close>.  \<open>hasBody node body\<close>: the node has a source position, its span is \<open>body\<close>,
  and the text the scanner walks is \<open>body\<close> followed by what \<open>textEnd\<close> cuts off (the closing
  quote of a quoted literal, nothing otherwise).
\<close>

definition literalSpan :: "StringNode \<Rightarrow> jsstring" where
  "literalSpan node = (case literalText node of (text, textStart, textEnd) \<Rightarrow> slice text textStart textEnd)"

definition hasBody :: "StringNode \<Rightarrow> jsstring \<Rightarrow> bool" where
  "hasBody node body =
     (pos node \<noteq> -1 \<and>
      (case literalText node of
         (text, textStart, textEnd) \<Rightarrow>
           slice text textStart textEnd = body
           \<and> drop (nat textStart) text = body @ drop (nat textEnd) text))"

text \<open>
  \<open>scannedText node\<close> is the text that the loop walks, from \<open>textStart\<close> to the end of
  \<open>text\<close>, and \<open>cutOff node\<close> is the part of it behind \<open>textEnd\<close>: the closing quote of a
  quoted literal, nothing for a template literal or a synthesized string literal.
\<close>

definition scannedText :: "StringNode \<Rightarrow> jsstring" where
  "scannedText node =
     (case literalText node of (text, textStart, textEnd) \<Rightarrow> drop (nat textStart) text)"

definition cutOff :: "StringNode \<Rightarrow> jsstring" where
  "cutOff node =
     (case literalText node of (text, textStart, textEnd) \<Rightarrow> drop (nat textEnd) text)"

text \<open>
  Two literals with a source position: a template literal whose raw text is \<open>raw\<close>, and a
  string literal written \<open>"raw"\<close> in the source.  \<open>rewrite t raw\<close> is the text that a fresh
  transformer for target \<open>t\<close> returns for the raw text \<open>raw\<close>.
\<close>

definition rawLiteral :: "jsstring \<Rightarrow> StringNode" where
  "rawLiteral raw =
     \<lparr>kind = NoSubstitutionTemplateLiteral, pos = 0, flagsSynthesized = False,
      nodeText = [], getText = [], rawText = Some raw\<rparr>"

definition quotedLiteral :: "jsstring \<Rightarrow> StringNode" where
  "quotedLiteral raw =
     \<lparr>kind = StringLiteral, pos = 0, flagsSynthesized = False,
      nodeText = [], getText = 34 # raw @ [34], rawText = None\<rparr>"

definition rewrite :: "LuaTarget \<Rightarrow> jsstring \<Rightarrow> jsstring" where
  "rewrite t raw =
     fst (runTransformer (createTransformer t) (rawLiteral raw) \<lparr>luaTarget = t, diagnostics = []\<rparr>)"

section \<open>Auxiliary definitions for the transformer claims\<close>

text \<open>
  \<open>rewriteOutput t xs\<close> is the whole text that the scan of \<open>xs\<close> for target \<open>t\<close> produces
  when it is not aborted.  \<open>barePayloads t xs\<close> lists the payloads (the up to four
  characters after \<open>\u\<close>) of the bare Unicode escapes that this scan rewrites.
\<close>

definition rewriteOutput :: "LuaTarget \<Rightarrow> jsstring \<Rightarrow> jsstring option" where
  "rewriteOutput t xs = map_option (\<lambda>(f, q). f @ q) (rewriteFrom t [] xs)"

fun barePayloads :: "LuaTarget \<Rightarrow> jsstring \<Rightarrow> jsstring list" where
  "barePayloads t [] = []"
| "barePayloads t [c] = []"
| "barePayloads t (c # d # ys) =
     (if c \<noteq> 92 then barePayloads t (d # ys)
      else if d = 120 then
        (if List.member unsupportedHexTargets t then barePayloads t (drop 2 ys)
         else barePayloads t ys)
      else if d = 117 then
        (if List.member unsupportedUnicodeTargets t then []
         else if (case ys of [] \<Rightarrow> False | e # _ \<Rightarrow> e = 123) then barePayloads t ys
         else take 4 ys # barePayloads t (drop 4 ys))
      else barePayloads t ys)"





section \<open>Properties of the UTF-8 byte encoder\<close>

subsection \<open>Bit operations as arithmetic\<close>

lemma and_mask_mod: "(x::nat) AND (2 ^ n - 1) = x mod 2 ^ n"
  by (simp add: take_bit_eq_mask mask_eq_exp_minus_1 flip: take_bit_eq_mod)

lemma or_push_take: "push_bit n m OR take_bit n y = push_bit n m + take_bit n (y::nat)"
  by (rule disjunctive_add [symmetric]) (auto simp: bit_simps)

lemma or_add_lt: "y < 2 ^ n \<Longrightarrow> (2 ^ n * m) OR y = 2 ^ n * m + y" for m y :: nat
  using or_push_take[of n m y] by (simp add: push_bit_eq_mult take_bit_eq_mod mult.commute)

lemma cont_byte: "(0x80::nat) OR (x AND 0x3F) = 0x80 + x mod 64"
  using and_mask_mod[of x 6] or_add_lt[of "x mod 64" 7 1]
  by (simp add: less_trans[OF mod_less_divisor[of 64 x]])

lemma lead2: "val < 0x800 \<Longrightarrow> (0xC0::nat) OR (val div 64 AND 0x3F) = 0xC0 + val div 64"
  using and_mask_mod[of "val div 64" 6] or_add_lt[of "val div 64" 6 3]
  by simp

lemma lead3: "val < 0x10000 \<Longrightarrow> (0xE0::nat) OR (val div 4096 AND 0x1F) = 0xE0 + val div 4096"
  using and_mask_mod[of "val div 4096" 5] or_add_lt[of "val div 4096" 5 7]
  by simp

lemma lead4:
  "val < 0x400000 \<Longrightarrow> (0xF0::nat) OR (val div 262144 AND 0x0F) = 0xF0 + val div 262144"
  using and_mask_mod[of "val div 262144" 4] or_add_lt[of "val div 262144" 4 15]
  by simp

lemma drop_bit_nat_div:
  "drop_bit 6 (v::nat) = v div 64" "drop_bit 12 v = v div 4096" "drop_bit 18 v = v div 262144"
  by (simp_all add: drop_bit_eq_div)

lemma encodeByte_arith: "encodeByte x = 92 # toString10 (0x80 + x mod 64)"
  by (simp add: encodeByte_def byteToString_def cont_byte)

lemma encodeCodePoint_utf8Bytes:
  "val < 0x400000 \<Longrightarrow> encodeCodePoint val = byteEscapes (utf8Bytes val)"
  by (simp add: encodeCodePoint_def utf8Bytes_def byteEscapes_def encodeByte_arith
      byteToString_def lead2 lead3 lead4 Let_def drop_bit_nat_div)

lemma toString10_small: "n < 10 \<Longrightarrow> toString10 n = [digitChar n]"
  by (simp add: toString10.simps)

lemma toString10_big:
  "10 \<le> n \<Longrightarrow> toString10 n = toString10 (n div 10) @ [digitChar (n mod 10)]"
  by (subst toString10.simps) simp

subsection \<open>Slices and code points inside the string\<close>

lemma slice_nat:
  "0 \<le> a \<Longrightarrow> a \<le> b \<Longrightarrow> b \<le> int (length t) \<Longrightarrow>
   slice t a b = take (nat b - nat a) (drop (nat a) t)"
  by (simp add: slice_def clampIndex_def Let_def nat_diff_distrib)

lemma slice_same: "slice t a a = []"
  by (simp add: slice_def Let_def)

lemma slice_snoc:
  assumes "0 \<le> a" "a \<le> b" "b < int (length t)"
  shows "slice t a (b + 1) = slice t a b @ [t ! nat b]"
proof -
  have "take (Suc (nat b - nat a)) (drop (nat a) t)
      = take (nat b - nat a) (drop (nat a) t) @ [drop (nat a) t ! (nat b - nat a)]"
    using assms by (intro take_Suc_conv_app_nth) auto
  moreover have "nat (b + 1) - nat a = Suc (nat b - nat a)" using assms by linarith
  ultimately show ?thesis using assms by (simp add: slice_nat)
qed

lemma codePointAt_drop:
  assumes "0 \<le> i" "i < int (length str)"
  shows "codePointAt str i = Some (codePointOf (str ! nat i) (drop (Suc (nat i)) str))"
proof (cases "drop (Suc (nat i)) str")
  case Nil
  then have "\<not> i + 1 < int (length str)" using assms by simp
  with assms Nil show ?thesis by (simp add: codePointAt_def codePointOf_def Let_def)
next
  case (Cons lo ys)
  then have lt: "Suc (nat i) < length str"
    by (metis drop_eq_Nil2 list.distinct(1) not_le_imp_less)
  have "lo = str ! Suc (nat i)" using Cons lt
    by (metis Cons_nth_drop_Suc list.inject)
  moreover have "nat (i + 1) = Suc (nat i)" using assms by simp
  moreover have "i + 1 < int (length str)" using lt by linarith
  ultimately show ?thesis using assms Cons
    by (simp add: codePointAt_def codePointOf_def Let_def)
qed

subsection \<open>The loop computes \<open>encodeUnits\<close>\<close>

lemma loop_done:
  "\<not> t < int (length str) \<Longrightarrow>
   encodeUTF8_loop str \<lparr>u_head = h, u_tail = t, u_buffer = b\<rparr>
     = \<lparr>u_head = h, u_tail = t, u_buffer = b\<rparr>"
  by (subst encodeUTF8_loop.simps) simp

lemma loop_small:
  "t < int (length str) \<Longrightarrow> codePointAt str t = Some cp \<Longrightarrow> \<not> cp > 0xFF \<Longrightarrow>
   encodeUTF8_loop str \<lparr>u_head = h, u_tail = t, u_buffer = b\<rparr>
     = encodeUTF8_loop str \<lparr>u_head = h, u_tail = t + 1, u_buffer = b\<rparr>"
  by (subst encodeUTF8_loop.simps) simp

lemma loop_big:
  "t < int (length str) \<Longrightarrow> codePointAt str t = Some cp \<Longrightarrow> cp > 0xFF \<Longrightarrow>
   encodeUTF8_loop str \<lparr>u_head = h, u_tail = t, u_buffer = b\<rparr>
     = encodeUTF8_loop str \<lparr>u_head = t + 1, u_tail = t + 1,
         u_buffer = (b @ slice str h t)
            @ (if cp < 0xDC00 \<or> cp > 0xDFFF then encodeCodePoint cp else [])\<rparr>"
  by (subst encodeUTF8_loop.simps) (simp add: Let_def)

lemma encodeUTF8_loop_correct:
  "0 \<le> h \<Longrightarrow> h \<le> t \<Longrightarrow> t \<le> int (length str) \<Longrightarrow>
   finish str (encodeUTF8_loop str \<lparr>u_head = h, u_tail = t, u_buffer = b\<rparr>)
     = b @ slice str h t @ encodeUnits (drop (nat t) str)"
proof (induction "nat (int (length str) - t)" arbitrary: h t b)
  case 0
  then have "\<not> t < int (length str)" by simp
  then show ?case using 0 by (simp add: loop_done finish_def)
next
  case (Suc n)
  then have lt: "t < int (length str)" by linarith
  have t0: "0 \<le> t" using Suc.prems by simp
  let ?t = "nat t"
  let ?cp = "codePointOf (str ! ?t) (drop (Suc ?t) str)"
  have cp: "codePointAt str t = Some ?cp"
    using codePointAt_drop[OF t0 lt] .
  have dr: "drop ?t str = str ! ?t # drop (Suc ?t) str"
    using lt t0 by (simp add: Cons_nth_drop_Suc)
  have nt: "nat (t + 1) = Suc ?t" using t0 by simp
  have n: "n = nat (int (length str) - (t + 1))" using Suc.hyps(2) by linarith
  show ?case
  proof (cases "?cp > 0xFF")
    case True
    have "finish str (encodeUTF8_loop str \<lparr>u_head = h, u_tail = t, u_buffer = b\<rparr>)
        = ((b @ slice str h t)
             @ (if ?cp < 0xDC00 \<or> ?cp > 0xDFFF then encodeCodePoint ?cp else []))
           @ slice str (t + 1) (t + 1) @ encodeUnits (drop (nat (t + 1)) str)"
      unfolding loop_big[OF lt cp True]
      by (rule Suc.hyps(1)[OF n]) (use t0 lt in auto)
    then show ?thesis using True by (simp add: dr nt slice_same Let_def)
  next
    case False
    have "finish str (encodeUTF8_loop str \<lparr>u_head = h, u_tail = t, u_buffer = b\<rparr>)
        = b @ slice str h (t + 1) @ encodeUnits (drop (nat (t + 1)) str)"
      unfolding loop_small[OF lt cp False]
      by (rule Suc.hyps(1)[OF n]) (use Suc.prems lt in auto)
    then show ?thesis
      using False slice_snoc[OF Suc.prems(1,2) lt] by (simp add: dr nt Let_def)
  qed
qed

lemma encodeUTF8_eq: "encodeUTF8 str = encodeUnits str"
  using encodeUTF8_loop_correct[of 0 0 str "[]"]
  by (simp add: encodeUTF8_def finish_def slice_same Let_def)

subsection \<open>Surrogates\<close>

lemma surrogatePair_bounds:
  "0x10000 \<le> surrogatePair hi lo"
  "isHighSurrogate hi \<Longrightarrow> isLowSurrogate lo \<Longrightarrow> surrogatePair hi lo < 0x110000"
  by (simp_all add: surrogatePair_def isHighSurrogate_def isLowSurrogate_def word_le_nat_alt)
     linarith

lemma unat16_bound: "unat (c :: 16 word) < 0x10000"
  using unsigned_less[of c, where ?'a=nat] by simp

lemma low_not_high: "isLowSurrogate c \<Longrightarrow> \<not> isHighSurrogate c"
  by (simp add: isHighSurrogate_def isLowSurrogate_def word_le_nat_alt)

lemma low_unat: "isLowSurrogate c \<longleftrightarrow> 0xDC00 \<le> unat c \<and> unat c \<le> 0xDFFF"
  by (simp add: isLowSurrogate_def word_le_nat_alt)

lemma codePointOf_low: "isLowSurrogate c \<Longrightarrow> codePointOf c xs = unat c"
  by (simp add: codePointOf_def low_not_high split: list.splits)

lemma encodeUnits_low: "isLowSurrogate c \<Longrightarrow> encodeUnits (c # xs) = encodeUnits xs"
  by (simp add: codePointOf_low low_unat Let_def)

lemma encodeUnits_pair:
  "isHighSurrogate hi \<Longrightarrow> isLowSurrogate lo \<Longrightarrow>
   encodeUnits (hi # lo # xs) = byteEscapes (utf8Bytes (surrogatePair hi lo)) @ encodeUnits xs"
  using surrogatePair_bounds[of hi lo] encodeUnits_low[of lo xs]
  by (simp add: codePointOf_def Let_def encodeCodePoint_utf8Bytes del: encodeUnits.simps(2))
     (simp add: codePointOf_def Let_def encodeCodePoint_utf8Bytes)

lemma codePointOf_append: "pre \<noteq> [] \<Longrightarrow> codePointOf c (pre @ ys) = codePointOf c pre"
  by (cases pre) (simp_all add: codePointOf_def)

lemma encodeUnits_append:
  "pre = [] \<or> \<not> isHighSurrogate (last pre) \<or> ys = [] \<or> \<not> isLowSurrogate (hd ys) \<Longrightarrow>
   encodeUnits (pre @ ys) = encodeUnits pre @ encodeUnits ys"
proof (induction pre)
  case Nil
  show ?case by simp
next
  case (Cons c pre)
  show ?case
  proof (cases "pre = []")
    case True
    with Cons.prems have "codePointOf c ys = unat c"
      by (cases ys) (auto simp: codePointOf_def)
    with True show ?thesis by (simp add: codePointOf_def Let_def)
  next
    case False
    with Cons have "encodeUnits (pre @ ys) = encodeUnits pre @ encodeUnits ys" by simp
    with False show ?thesis by (simp add: codePointOf_append Let_def)
  qed
qed

lemma encodeUnits_latin1: "\<forall>c\<in>set str. c \<le> 0xFF \<Longrightarrow> encodeUnits str = str"
proof (induction str)
  case Nil
  show ?case by simp
next
  case (Cons c str)
  then have c: "unat c \<le> 0xFF" by (simp add: word_le_nat_alt)
  then have "\<not> isHighSurrogate c" by (simp add: isHighSurrogate_def word_le_nat_alt)
  then have "codePointOf c str = unat c" by (simp add: codePointOf_def split: list.splits)
  with Cons c show ?case by (simp add: Let_def)
qed

lemma encodeUnits_codePoints: "encodeUnits str = encodeSkippingLow str"
proof (induction str rule: codePoints.induct)
  case 1
  show ?case by (simp add: encodeSkippingLow_def)
next
  case (2 c)
  show ?case using unat16_bound[of c]
    by (simp add: encodeSkippingLow_def codePointOf_def Let_def encodeCodePoint_utf8Bytes)
next
  case (3 c d xs)
  show ?case
  proof (cases "isHighSurrogate c \<and> isLowSurrogate d")
    case True
    then show ?thesis using 3 surrogatePair_bounds[of c d] encodeUnits_pair[of c d xs]
      by (simp add: encodeSkippingLow_def del: encodeUnits.simps)
  next
    case False
    then have cp: "codePointOf c (d # xs) = unat c" by (auto simp: codePointOf_def)
    have cps: "codePoints (c # d # xs) = (unat c, [c]) # codePoints (d # xs)"
      using False by simp
    have "encodeUnits (d # xs) = encodeSkippingLow (d # xs)" using 3 False by simp
    then show ?thesis using unat16_bound[of c]
      unfolding encodeUnits.simps(2)[of c] cp encodeSkippingLow_def cps
      by (simp add: Let_def encodeCodePoint_utf8Bytes del: encodeUnits.simps codePoints.simps)
  qed
qed

text \<open>Rules that evaluate the encoder and its specification on a given string.\<close>

lemmas utf8_eval = encodeUTF8_eq codePointOf_def isHighSurrogate_def isLowSurrogate_def
  surrogatePair_def encodeCodePoint_utf8Bytes utf8Bytes_def byteEscapes_def
  toString10_small toString10_big digitChar_def Let_def

lemmas utf8_spec_eval = encodeAsClaimed_def encodeSkippingLow_def utf8Bytes_def
  byteEscapes_def isHighSurrogate_def isLowSurrogate_def surrogatePair_def toString10_small
  toString10_big digitChar_def

subsection \<open>The claims about the encoder\<close>

text \<open>
  C4, as stated, says that \<open>encodeUTF8\<close> is \<open>encodeAsClaimed\<close>: every code point above
  \<open>0xFF\<close> is replaced by the decimal escapes of its UTF-8 bytes.  The code drops a low
  surrogate that is not the second half of a pair instead of encoding it: the string of
  the one code unit \<open>0xDC00\<close> is encoded as the empty string.  C4 amended: for every input
  string, \<open>encodeUTF8\<close>
  replaces every code point above \<open>0xFF\<close> other than an unpaired low surrogate by the
  escapes \<open>\ddd\<close> of the bytes of its UTF-8 encoding (two bytes below \<open>0x800\<close>, three below
  \<open>0x10000\<close>, four otherwise), drops an unpaired low surrogate, and copies every code point
  up to \<open>0xFF\<close> as it is, in order.
\<close>

theorem encodeUTF8_skips_low_surrogates: "encodeUTF8 str = encodeSkippingLow str"
  by (simp add: encodeUTF8_eq encodeUnits_codePoints)

theorem encodeUTF8_skips_low_surrogates_witness:
  "encodeUTF8 [0x61, 0x20AC, 0xD83D, 0xDE00, 0xDC00, 0xE9]
     = encodeSkippingLow [0x61, 0x20AC, 0xD83D, 0xDE00, 0xDC00, 0xE9]
   \<and> encodeSkippingLow [0x61, 0x20AC, 0xD83D, 0xDE00, 0xDC00, 0xE9]
     = [0x61, 92, 50, 50, 54, 92, 49, 51, 48, 92, 49, 55, 50,
        92, 50, 52, 48, 92, 49, 53, 57, 92, 49, 53, 50, 92, 49, 50, 56, 0xE9]"
  using encodeUTF8_skips_low_surrogates[of "[0x61, 0x20AC, 0xD83D, 0xDE00, 0xDC00, 0xE9]"]
  by (simp add: utf8_spec_eval)

theorem encodeUTF8_lone_low_surrogate: "encodeUTF8 [0xDC00] \<noteq> encodeAsClaimed [0xDC00]"
  by (simp add: utf8_eval utf8_spec_eval)

text \<open>
  C5, as stated for the encoder of strings, fails: \<open>0x00E9\<close> is not above \<open>0xFF\<close>, so
  \<open>encodeUTF8\<close> leaves it alone.  C5 amended: the code
  point helper \<open>encodeCodePoint\<close> maps \<open>0x00E9\<close> to the escapes \<open>\195\169\<close> of the bytes
  \<open>0xC3 0xA9\<close>; \<open>encodeUTF8\<close> returns the one-character string \<open>0x00E9\<close> unchanged, and returns
  every ASCII-only string unchanged.
\<close>

theorem encodeCodePoint_e_acute:
  "encodeCodePoint 0xE9 = [92, 49, 57, 53, 92, 49, 54, 57]
   \<and> encodeUTF8 [0xE9] = [0xE9]
   \<and> (\<forall>str. (\<forall>c\<in>set str. c \<le> 0x7F) \<longrightarrow> encodeUTF8 str = str)"
proof (intro conjI allI impI)
  show "encodeCodePoint 0xE9 = [92, 49, 57, 53, 92, 49, 54, 57]" by (simp add: utf8_eval)
  show "encodeUTF8 [0xE9] = [0xE9]" by (simp add: utf8_eval)
  fix str :: jsstring
  assume "\<forall>c\<in>set str. c \<le> 0x7F"
  then have "\<forall>c\<in>set str. c \<le> 0xFF" by (auto intro: order_trans)
  then show "encodeUTF8 str = str" by (simp add: encodeUTF8_eq encodeUnits_latin1)
qed

theorem encodeCodePoint_e_acute_witness:
  "list_all (\<lambda>c. c \<le> 0x7F) [0x61, 0x62, 0x7F :: 16 word]
   \<and> encodeUTF8 [0x61, 0x62, 0x7F] = [0x61, 0x62, 0x7F]"
  using encodeCodePoint_e_acute by simp

theorem encodeUTF8_e_acute_unchanged:
  "encodeUTF8 [0xE9] \<noteq> [92, 49, 57, 53, 92, 49, 54, 57]"
  by (simp add: utf8_eval)

text \<open>
  C6: in every string, a high surrogate immediately followed by a low surrogate is
  consumed as one code point: \<open>encodeUTF8\<close> emits for the two code units exactly the
  four escapes of the four-byte UTF-8 form of the combined code point, between the
  encodings of what precedes and of what follows; the low half is skipped, not emitted
  again.
\<close>

theorem encodeUTF8_surrogate_pair:
  assumes "isHighSurrogate hi" and "isLowSurrogate lo"
  shows "encodeUTF8 (pre @ hi # lo # post)
       = encodeUTF8 pre
         @ byteEscapes [0xF0 + surrogatePair hi lo div 0x40000,
                        0x80 + surrogatePair hi lo div 0x1000 mod 0x40,
                        0x80 + surrogatePair hi lo div 0x40 mod 0x40,
                        0x80 + surrogatePair hi lo mod 0x40]
         @ encodeUTF8 post"
proof -
  have "\<not> isLowSurrogate hi" using assms(1) low_not_high by blast
  then have "encodeUnits (pre @ hi # lo # post) = encodeUnits pre @ encodeUnits (hi # lo # post)"
    by (intro encodeUnits_append) simp
  moreover have "utf8Bytes (surrogatePair hi lo) =
     [0xF0 + surrogatePair hi lo div 0x40000,
      0x80 + surrogatePair hi lo div 0x1000 mod 0x40,
      0x80 + surrogatePair hi lo div 0x40 mod 0x40,
      0x80 + surrogatePair hi lo mod 0x40]"
    using surrogatePair_bounds(1)[of hi lo] by (simp add: utf8Bytes_def)
  ultimately show ?thesis
    using encodeUnits_pair[OF assms, of post] by (simp add: encodeUTF8_eq)
qed

theorem encodeUTF8_surrogate_pair_witness:
  "isHighSurrogate 0xD83D \<and> isLowSurrogate 0xDE00
   \<and> encodeUTF8 ([0x61] @ 0xD83D # 0xDE00 # [0x62])
     = [0x61, 92, 50, 52, 48, 92, 49, 53, 57, 92, 49, 53, 50, 92, 49, 50, 56, 0x62]"
  using encodeUTF8_surrogate_pair[of "0xD83D" "0xDE00" "[0x61]" "[0x62]"]
  by (simp add: utf8_eval)

text \<open>
  C10, as stated, ends: so the output is strictly shorter in code units than an
  otherwise-identical input without it.  The output for \<open>a\<close>, \<open>0xDC00\<close>, \<open>b\<close> is \<open>a\<close>, \<open>b\<close>:
  as long as the input without the low surrogate, not shorter.  C10 amended: a low
  surrogate code unit (\<open>0xDC00..0xDFFF\<close>) that is not preceded by a high surrogate is
  silently deleted by \<open>encodeUTF8\<close>, neither copied nor encoded: the output is the
  encoding of what precedes followed by the encoding of what follows, which is the output
  for the otherwise-identical input without that code unit, and so has the same length;
  where all other code units are at most \<open>0xFF\<close> the output is the input without that
  code unit, one code unit shorter than the input.
\<close>

theorem encodeUTF8_unpaired_low_surrogate:
  assumes "isLowSurrogate lo" and "pre = [] \<or> \<not> isHighSurrogate (last pre)"
  shows "encodeUTF8 (pre @ lo # post) = encodeUTF8 pre @ encodeUTF8 post
       \<and> encodeUTF8 (pre @ lo # post) = encodeUTF8 (pre @ post)
       \<and> length (encodeUTF8 (pre @ lo # post)) = length (encodeUTF8 (pre @ post))
       \<and> ((\<forall>c\<in>set (pre @ post). c \<le> 0xFF) \<longrightarrow>
            encodeUTF8 (pre @ lo # post) = pre @ post
            \<and> Suc (length (encodeUTF8 (pre @ lo # post))) = length (pre @ lo # post))"
proof -
  have 1: "encodeUnits (pre @ lo # post) = encodeUnits pre @ encodeUnits post"
    using assms encodeUnits_append[of pre "lo # post"]
    by (auto simp: encodeUnits_low simp del: encodeUnits.simps)
  have 2: "encodeUnits (pre @ post) = encodeUnits pre @ encodeUnits post"
    using assms(2) by (intro encodeUnits_append) auto
  show ?thesis using 1 2 encodeUnits_latin1[of "pre @ post"]
    by (simp add: encodeUTF8_eq)
qed

theorem encodeUTF8_unpaired_low_surrogate_witness:
  "isLowSurrogate 0xDC00
   \<and> ([0x61, 0x20AC :: 16 word] = [] \<or> \<not> isHighSurrogate (last [0x61, 0x20AC]))
   \<and> encodeUTF8 ([0x61, 0x20AC] @ 0xDC00 # [0x62])
       = [0x61, 92, 50, 50, 54, 92, 49, 51, 48, 92, 49, 55, 50, 0x62]
   \<and> encodeUTF8 ([0x61, 0x20AC] @ [0x62])
       = [0x61, 92, 50, 50, 54, 92, 49, 51, 48, 92, 49, 55, 50, 0x62]
   \<and> list_all (\<lambda>c. c \<le> 0xFF) ([0x61] @ [0x62 :: 16 word])
   \<and> encodeUTF8 ([0x61] @ 0xDC00 # [0x62]) = [0x61, 0x62]"
  using encodeUTF8_unpaired_low_surrogate[of "0xDC00" "[0x61, 0x20AC]" "[0x62]"]
    encodeUTF8_unpaired_low_surrogate[of "0xDC00" "[0x61]" "[0x62]"]
  by (simp add: utf8_eval)

theorem encodeUTF8_unpaired_low_surrogate_not_shorter:
  "encodeUTF8 [0x61, 0xDC00, 0x62] = [0x61, 0x62]
   \<and> \<not> length (encodeUTF8 [0x61, 0xDC00, 0x62]) < length [0x61, 0x62 :: 16 word]
   \<and> \<not> length (encodeUTF8 [0x61, 0xDC00, 0x62]) < length (encodeUTF8 [0x61, 0x62])"
  by (simp add: utf8_eval)

section \<open>Properties of the escape sequence transformer\<close>

subsection \<open>String primitives inside the text\<close>

lemma indexFrom_bounds:
  "indexFrom c xs k = -1 \<or> (int k \<le> indexFrom c xs k \<and> indexFrom c xs k < int k + int (length xs))"
proof (induction xs arbitrary: k)
  case Nil
  show ?case by simp
next
  case (Cons x xs)
  from Cons[of "Suc k"] show ?case by auto
qed

lemma indexOf_past_end: "int (length t) \<le> h \<Longrightarrow> indexOf t c h = -1"
  by (simp add: indexOf_def Let_def)

lemma indexOf_here:
  "0 \<le> h \<Longrightarrow> h < int (length t) \<Longrightarrow> t ! nat h = c \<Longrightarrow> indexOf t c h = h"
  by (simp add: indexOf_def Let_def Cons_nth_drop_Suc[symmetric])

lemma indexOf_skip:
  assumes "0 \<le> h" "h < int (length t)" "t ! nat h \<noteq> c"
  shows "indexOf t c h = indexOf t c (h + 1)"
proof -
  have k: "nat (min (max h 0) (int (length t))) = nat h"
    "nat (min (max (h + 1) 0) (int (length t))) = Suc (nat h)"
    using assms by auto
  have "drop (nat h) t = t ! nat h # drop (Suc (nat h)) t"
    using assms by (simp add: Cons_nth_drop_Suc)
  then show ?thesis using assms(3) by (simp add: indexOf_def Let_def k)
qed

subsection \<open>One step of the scan\<close>

lemma slice_nonneg:
  "0 \<le> a \<Longrightarrow> 0 \<le> b \<Longrightarrow> slice t a b = take (nat b - nat a) (drop (nat a) t)"
  by (auto simp: slice_def clampIndex_def Let_def min_def max_def nat_diff_distrib)

lemma charCodeAt_drop:
  "0 \<le> i \<Longrightarrow> charCodeAt t i = (case drop (nat i) t of [] \<Rightarrow> None | c # _ \<Rightarrow> Some c)"
  by (auto simp: charCodeAt_def hd_drop_conv_nth split: list.splits
      dest: arg_cong[where f=hd])

lemma scan_end:
  "int (length T) \<le> h \<Longrightarrow>
   scanLoop T node ts \<lparr>target = t, head = h, start = s, buffer = b\<rparr> c
     = (\<lparr>target = t, head = -1, start = s, buffer = b\<rparr>, c)"
  by (subst scanLoop.simps) (simp add: indexOf_past_end Let_def)

lemma scan_skip:
  assumes "0 \<le> h" "h < int (length T)" "T ! nat h \<noteq> 92"
  shows "scanLoop T node ts \<lparr>target = t, head = h, start = s, buffer = b\<rparr> c
       = scanLoop T node ts \<lparr>target = t, head = h + 1, start = s, buffer = b\<rparr> c"
  by (subst scanLoop.simps, subst (2) scanLoop.simps) (simp add: indexOf_skip[OF assms] Let_def)

lemma scan_at:
  assumes "0 \<le> h" "h < int (length T)" "T ! nat h = 92"
  shows "scanLoop T node ts \<lparr>target = t, head = h, start = s, buffer = b\<rparr> c
       = (case parseEscapeSequence T node \<lparr>target = t, head = h, start = s, buffer = b\<rparr> c of
            (ok, s2, c2) \<Rightarrow>
              if \<not> ok then (s2\<lparr>start := ts\<rparr>, c2) else scanLoop T node ts s2 c2)"
  using assms by (subst scanLoop.simps) (simp add: indexOf_here Let_def)

lemma pes_default:
  assumes "charCodeAt T (h + 1) \<noteq> Some 120" "charCodeAt T (h + 1) \<noteq> Some 117"
  shows "parseEscapeSequence T node \<lparr>target = t, head = h, start = s, buffer = b\<rparr> c
       = (True, \<lparr>target = t, head = h + 2, start = s, buffer = b\<rparr>, c)"
  using assms by (simp add: parseEscapeSequence_def Let_def)

lemma pes_hex_native:
  assumes "charCodeAt T (h + 1) = Some 120" "\<not> List.member unsupportedHexTargets t"
  shows "parseEscapeSequence T node \<lparr>target = t, head = h, start = s, buffer = b\<rparr> c
       = (True, \<lparr>target = t, head = h + 2, start = s, buffer = b\<rparr>, c)"
  using assms by (simp add: parseEscapeSequence_def parseHexEscape_def Let_def)

lemma pes_hex:
  assumes "charCodeAt T (h + 1) = Some 120" "List.member unsupportedHexTargets t"
  shows "parseEscapeSequence T node \<lparr>target = t, head = h, start = s, buffer = b\<rparr> c
       = (True, \<lparr>target = t, head = h + 4, start = h + 4,
                  buffer = b @ slice T s h
                     @ 92 # numberToString (NumberOfHex (slice T (h + 2) (h + 4)))\<rparr>, c)"
  using assms
  by (simp add: parseEscapeSequence_def parseHexEscape_def transformHexEscape_def
      bufferAppend_def Let_def) (simp add: add.commute)?

lemma pes_uni_abort:
  assumes "charCodeAt T (h + 1) = Some 117" "List.member unsupportedUnicodeTargets t"
  shows "parseEscapeSequence T node \<lparr>target = t, head = h, start = s, buffer = b\<rparr> c
       = (False, \<lparr>target = t, head = h + 1, start = s, buffer = b\<rparr>,
          c\<lparr>diagnostics := diagnostics c @ [unsupportedUnicodeEscape node t]\<rparr>)"
  using assms by (simp add: parseEscapeSequence_def parseUnicodeEscape_def Let_def)

lemma pes_uni_braced:
  assumes "charCodeAt T (h + 1) = Some 117" "\<not> List.member unsupportedUnicodeTargets t"
    "charCodeAt T (h + 2) = Some 123"
  shows "parseEscapeSequence T node \<lparr>target = t, head = h, start = s, buffer = b\<rparr> c
       = (True, \<lparr>target = t, head = h + 2, start = s, buffer = b\<rparr>, c)"
  using assms
  by (simp add: parseEscapeSequence_def parseUnicodeEscape_def transformUnicodeEscape_def
      Let_def) (simp add: add.commute)?

lemma pes_uni_bare:
  assumes "charCodeAt T (h + 1) = Some 117" "\<not> List.member unsupportedUnicodeTargets t"
    "charCodeAt T (h + 2) \<noteq> Some 123"
  shows "parseEscapeSequence T node \<lparr>target = t, head = h, start = s, buffer = b\<rparr> c
       = (True, \<lparr>target = t, head = h + 6, start = h + 6,
                  buffer = b @ slice T s h
                     @ [92, 117, 123] @ slice T (h + 2) (h + 6) @ [125]\<rparr>, c)"
  using assms
  by (simp add: parseEscapeSequence_def parseUnicodeEscape_def transformUnicodeEscape_def
      bufferAppend_def Let_def) (simp add: add.commute)?

lemma rewriteFrom_plain:
  "c \<noteq> 92 \<Longrightarrow> rewriteFrom t p (c # xs) = rewriteFrom t (p @ [c]) xs"
  by (cases xs) simp_all

lemma rewriteFrom_default:
  "d \<noteq> 120 \<Longrightarrow> d \<noteq> 117 \<Longrightarrow> rewriteFrom t p (92 # d # ys) = rewriteFrom t (p @ [92, d]) ys"
  by simp

subsection \<open>The loop computes \<open>rewriteFrom\<close>\<close>

lemma slice_to_end: "0 \<le> s \<Longrightarrow> int (length T) \<le> h \<Longrightarrow> slice T s h = drop (nat s) T"
  by (simp add: slice_nonneg)

lemma slice_app_drop:
  assumes "0 \<le> s" "s \<le> h" "0 \<le> k"
  shows "slice T s (h + k) = slice T s h @ take (nat k) (drop (nat h) T)"
proof -
  have 1: "nat (h + k) - nat s = (nat h - nat s) + nat k" using assms by linarith
  have 2: "drop (nat h - nat s) (drop (nat s) T) = drop (nat h) T" using assms by simp
  have "take (nat (h + k) - nat s) (drop (nat s) T)
      = take (nat h - nat s) (drop (nat s) T) @ take (nat k) (drop (nat h) T)"
    unfolding 1 take_add 2 ..
  then show ?thesis using assms by (simp add: slice_nonneg)
qed

lemma slice_drop_take: "0 \<le> h \<Longrightarrow> 0 \<le> k \<Longrightarrow> slice T h (h + k) = take (nat k) (drop (nat h) T)"
  using slice_app_drop[of h h k T] by (simp add: slice_same)

lemma drop_int_add: "0 \<le> h \<Longrightarrow> 0 \<le> k \<Longrightarrow> drop (nat k) (drop (nat h) T) = drop (nat (h + k)) T"
  by (simp add: nat_add_distrib add.commute)

lemma scanLoop_rewriteFrom:
  "0 \<le> s \<Longrightarrow> s \<le> h \<Longrightarrow>
   scanResult T node ts t s b c (rewriteFrom t (slice T s h) (drop (nat h) T))
     (scanLoop T node ts \<lparr>target = t, head = h, start = s, buffer = b\<rparr> c)"
proof (induction "nat (int (length T) - h)" arbitrary: h s b rule: less_induct)
  case less
  note IH = less.hyps
  have h0: "0 \<le> h" using less.prems by simp
  show ?case
  proof (cases "int (length T) \<le> h")
    case True
    then show ?thesis using less.prems
      by (simp add: scan_end scanResult_def slice_to_end)
  next
    case False
    then have lt: "h < int (length T)" by simp
    define x where "x = T ! nat h"
    define xs where "xs = drop (nat (h + 1)) T"
    have dr: "drop (nat h) T = x # xs"
      using lt h0 by (simp add: x_def xs_def Cons_nth_drop_Suc nat_add_distrib)
    have sl1: "slice T s (h + 1) = slice T s h @ [x]"
      using slice_app_drop[of s h 1 T] less.prems dr by simp
    show ?thesis
    proof (cases "x = 92")
      case False
      have "nat (int (length T) - (h + 1)) < nat (int (length T) - h)" using lt by simp
      from IH[OF this, of s b] less.prems
      have "scanResult T node ts t s b c (rewriteFrom t (slice T s (h + 1)) xs)
              (scanLoop T node ts \<lparr>target = t, head = h + 1, start = s, buffer = b\<rparr> c)"
        by (simp add: xs_def)
      then show ?thesis
        using False scan_skip[OF h0 lt, of node ts t s b c]
        by (simp add: dr rewriteFrom_plain sl1 x_def)
    next
      case True
      note at = scan_at[OF h0 lt, of node ts t s b c, unfolded x_def[symmetric], OF True]
      show ?thesis
      proof (cases xs)
        case Nil
        then have len: "int (length T) = h + 1" using lt h0 unfolding xs_def by simp
        have cc: "charCodeAt T (h + 1) = None" using len by (simp add: charCodeAt_def)
        have "scanLoop T node ts \<lparr>target = t, head = h, start = s, buffer = b\<rparr> c
            = (\<lparr>target = t, head = -1, start = s, buffer = b\<rparr>, c)"
          using len by (simp add: at pes_default cc scan_end)
        moreover have "slice T s (int (length T)) = slice T s h @ [92]"
          using sl1 True len by simp
        ultimately show ?thesis using Nil True
          by (simp add: dr scanResult_def)
      next
        case (Cons d ys)
        have n2: "nat (h + 2) = Suc (nat (h + 1))" using h0 by simp
        have "tl (drop (nat (h + 1)) T) = ys" using Cons by (simp add: xs_def)
        then have ys: "ys = drop (nat (h + 2)) T"
          unfolding n2 by (simp add: drop_Suc tl_drop)
        have cc: "charCodeAt T (h + 1) = Some d"
          using h0 Cons by (simp add: charCodeAt_drop xs_def)
        have sl2: "slice T s (h + 2) = slice T s h @ [92, d]"
          using slice_app_drop[of s h 2 T] less.prems dr Cons True
          by (simp add: numeral_2_eq_2)
        have m2: "nat (int (length T) - (h + 2)) < nat (int (length T) - h)" using lt by simp
        have step2: "scanResult T node ts t s b c (rewriteFrom t (slice T s h @ [92, d]) ys)
              (scanLoop T node ts \<lparr>target = t, head = h + 2, start = s, buffer = b\<rparr> c)"
          using IH[OF m2, of s b] less.prems by (simp add: ys sl2)
        show ?thesis
        proof (cases "d = 120")
          case hex: True
          show ?thesis
          proof (cases "List.member unsupportedHexTargets t")
            case False
            then show ?thesis using step2 hex True Cons
              by (simp add: dr at pes_hex_native cc)
          next
            case mem: True
            have m4: "nat (int (length T) - (h + 4)) < nat (int (length T) - h)" using lt by simp
            have "drop (nat 2) (drop (nat (h + 2)) T) = drop (nat (h + 4)) T"
              using drop_int_add[of "h + 2" 2 T] h0 by (simp add: add.commute)
            then have d4: "drop (nat (h + 4)) T = drop 2 ys"
              by (simp add: ys)
            have p: "slice T (h + 2) (h + 4) = take 2 ys"
              using slice_drop_take[of "h + 2" 2 T] h0 by (simp add: ys add.commute)
            have "scanResult T node ts t (h + 4)
                    (b @ slice T s h @ 92 # numberToString (NumberOfHex (take 2 ys))) c
                    (rewriteFrom t [] (drop 2 ys))
                    (scanLoop T node ts \<lparr>target = t, head = h + 4, start = h + 4,
                        buffer = b @ slice T s h @ 92 # numberToString (NumberOfHex (take 2 ys))\<rparr> c)"
              using IH[OF m4, of "h + 4" "b @ slice T s h @ 92 # numberToString (NumberOfHex (take 2 ys))"] h0
              by (simp add: d4 slice_same)
            then have "scanResult T node ts t s b c
                    (rewriteFrom t (slice T s h) (92 # 120 # ys))
                    (scanLoop T node ts \<lparr>target = t, head = h + 4, start = h + 4,
                        buffer = b @ slice T s h @ 92 # numberToString (NumberOfHex (take 2 ys))\<rparr> c)"
              using mem less.prems
              by (auto simp: scanResult_def split: option.splits prod.splits)
            then show ?thesis using hex True Cons mem
              by (simp add: dr at pes_hex cc p)
          qed
        next
          case nothex: False
          show ?thesis
          proof (cases "d = 117")
            case False
            then show ?thesis using step2 nothex True Cons
              by (simp add: dr at pes_default cc)
          next
            case uni: True
            show ?thesis
            proof (cases "List.member unsupportedUnicodeTargets t")
              case True
              then show ?thesis using uni \<open>x = 92\<close> Cons
                by (simp add: dr at pes_uni_abort cc scanResult_def)
            next
              case sup: False
              have cc2: "charCodeAt T (h + 2) = (case ys of [] \<Rightarrow> None | e # _ \<Rightarrow> Some e)"
                using h0 by (simp add: charCodeAt_drop ys)
              show ?thesis
              proof (cases "case ys of [] \<Rightarrow> False | e # _ \<Rightarrow> e = 123")
                case True
                then have "charCodeAt T (h + 2) = Some 123"
                  by (simp add: cc2 split: list.splits)
                then show ?thesis using step2 uni \<open>x = 92\<close> Cons sup True
                  by (simp add: dr at pes_uni_braced cc)
              next
                case bare: False
                then have nb: "charCodeAt T (h + 2) \<noteq> Some 123"
                  by (simp add: cc2 split: list.splits)
                have m6: "nat (int (length T) - (h + 6)) < nat (int (length T) - h)"
                  using lt by simp
                have "drop (nat 4) (drop (nat (h + 2)) T) = drop (nat (h + 6)) T"
                  using drop_int_add[of "h + 2" 4 T] h0 by (simp add: add.commute)
                then have d6: "drop (nat (h + 6)) T = drop 4 ys"
                  by (simp add: ys)
                have p: "slice T (h + 2) (h + 6) = take 4 ys"
                  using slice_drop_take[of "h + 2" 4 T] h0 by (simp add: ys add.commute)
                let ?b = "b @ slice T s h @ [92, 117, 123] @ take 4 ys @ [125]"
                have "scanResult T node ts t (h + 6) ?b c (rewriteFrom t [] (drop 4 ys))
                        (scanLoop T node ts \<lparr>target = t, head = h + 6, start = h + 6,
                            buffer = ?b\<rparr> c)"
                  using IH[OF m6, of "h + 6" ?b] h0 by (simp add: d6 slice_same)
                then have "scanResult T node ts t s b c
                        (rewriteFrom t (slice T s h) (92 # 117 # ys))
                        (scanLoop T node ts \<lparr>target = t, head = h + 6, start = h + 6,
                            buffer = ?b\<rparr> c)"
                  using sup bare less.prems
                  by (auto simp: scanResult_def split: option.splits prod.splits)
                then show ?thesis using uni \<open>x = 92\<close> Cons sup
                  by (simp add: dr at pes_uni_bare[OF _ _ nb] cc p)
              qed
            qed
          qed
        qed
      qed
    qed
  qed
qed

subsection \<open>The transformer in terms of \<open>rewriteFrom\<close>\<close>

lemma literalText_bounds:
  assumes "literalText node = (T, ts, te)"
  shows "0 \<le> ts" "te \<le> int (length T)" "int (length T) - 1 \<le> te"
  using assms by (auto simp: literalText_def Let_def split: if_splits)

lemma runTransformer_rewriteFrom:
  assumes "pos node \<noteq> -1" "literalText node = (T, ts, te)" "T \<noteq> []"
  shows "case rewriteFrom (target st) [] (drop (nat ts) T) of
           None \<Rightarrow>
             \<exists>st'. runTransformer st node c
                = (slice T ts te, st',
                   c\<lparr>diagnostics := diagnostics c @ [unsupportedUnicodeEscape node (target st)]\<rparr>)
                \<and> target st' = target st
         | Some (f, q) \<Rightarrow>
             \<exists>st'. runTransformer st node c
                = (f @ take (length q - nat (int (length T) - te)) q, st', c)
                \<and> target st' = target st"
proof -
  note b = literalText_bounds[OF assms(2)]
  have te0: "0 \<le> te" using b(3) assms(3) by (cases T) auto
  have init: "st\<lparr>head := ts, start := ts, buffer := []\<rparr>
      = \<lparr>target = target st, head = ts, start = ts, buffer = []\<rparr>"
    by simp
  obtain st' c' where run: "scanLoop T node ts \<lparr>target = target st, head = ts, start = ts, buffer = []\<rparr> c = (st', c')"
    by (cases "scanLoop T node ts \<lparr>target = target st, head = ts, start = ts, buffer = []\<rparr> c")
  have res: "runTransformer st node c
     = ((if start st' \<noteq> ts then buffer st' else []) @ slice T (start st') te, st'\<lparr>buffer := []\<rparr>, c')"
    using assms run by (simp add: runTransformer_def init)
  from scanLoop_rewriteFrom[of ts ts T node ts "target st" "[]" c] b(1)
  have sr: "scanResult T node ts (target st) ts [] c (rewriteFrom (target st) [] (drop (nat ts) T)) (st', c')"
    by (simp add: slice_same run)
  show ?thesis
  proof (cases "rewriteFrom (target st) [] (drop (nat ts) T)")
    case None
    then show ?thesis using sr res by (simp add: scanResult_def)
  next
    case (Some fq)
    obtain f q where fq: "fq = (f, q)" by (cases fq)
    from sr Some fq have c: "c' = c" and bf: "buffer st' = f"
      and q: "slice T (start st') (int (length T)) = q" and le: "ts \<le> start st'"
      and nf: "start st' = ts \<longrightarrow> f = []" and tg: "target st' = target st"
      by (auto simp: scanResult_def)
    have s0: "0 \<le> start st'" using le b(1) by simp
    have q': "q = drop (nat (start st')) T" using q s0 by (simp add: slice_nonneg)
    have "slice T (start st') te = take (length q - nat (int (length T) - te)) q"
      using s0 te0 b(2) unfolding q' by (simp add: slice_nonneg) (rule arg_cong2[where f=take], linarith, rule refl)
    moreover have "(if start st' \<noteq> ts then buffer st' else []) = f" using bf nf by auto
    ultimately show ?thesis using res c tg Some fq by simp
  qed
qed

subsection \<open>Scanning a sequence of tokens\<close>

lemma hexDigit_not_special: "isHexDigit a \<Longrightarrow> a \<noteq> 92 \<and> a \<noteq> 123"
  by (auto simp: isHexDigit_def)

lemma NumberOfHex_two:
  "isHexDigit a \<Longrightarrow> isHexDigit b \<Longrightarrow> NumberOfHex [a, b] = Some (16 * hexDigitValue a + hexDigitValue b)"
  by (simp add: NumberOfHex_def hexValue_def)

lemma rewriteFrom_hex_token:
  assumes "isHexDigit a" "isHexDigit b"
  shows "rewriteFrom t p (92 # 120 # a # b # X)
       = (if List.member unsupportedHexTargets t then
            map_option (\<lambda>(f, q). (p @ 92 # toString10 (16 * hexDigitValue a + hexDigitValue b) @ f, q))
              (rewriteFrom t [] X)
          else rewriteFrom t (p @ [92, 120, a, b]) X)"
  using assms hexDigit_not_special[of a] hexDigit_not_special[of b]
  by (cases "rewriteFrom t [] X")
     (auto simp: NumberOfHex_two numberToString_def rewriteFrom_plain)

lemma rewriteFrom_uni_token:
  assumes "\<not> List.member unsupportedUnicodeTargets t" "a \<noteq> 123"
  shows "rewriteFrom t p (92 # 117 # a # b # c # d # X)
       = map_option (\<lambda>(f, q). (p @ [92, 117, 123, a, b, c, d, 125] @ f, q)) (rewriteFrom t [] X)"
  using assms by (cases "rewriteFrom t [] X") auto

lemma rewriteFrom_brace_token:
  assumes "\<not> List.member unsupportedUnicodeTargets t"
  shows "rewriteFrom t p (92 # 117 # 123 # X) = rewriteFrom t (p @ [92, 117, 123]) X"
  using assms by (simp add: rewriteFrom_plain)

lemma rewriteFrom_tokens:
  assumes "list_all wellFormed toks"
    and "\<not> List.member unsupportedUnicodeTargets t \<or> list_all (\<lambda>k. \<not> isUnicodeEscape k) toks"
  shows "\<exists>F P. F @ P = p @ rewrittenText t toks
           \<and> (\<forall>rest. rewriteFrom t p (sourceText toks @ rest)
                  = map_option (\<lambda>(f, q). (F @ f, q)) (rewriteFrom t P rest))"
  using assms
proof (induction toks arbitrary: p)
  case Nil
  have "rewriteFrom t p (sourceText [] @ rest)
      = map_option (\<lambda>(f, q). ([] @ f, q)) (rewriteFrom t p rest)" for rest
    by (simp add: sourceText_def option.map_id)
  moreover have "[] @ p = p @ rewrittenText t []" by (simp add: rewrittenText_def)
  ultimately show ?case by blast
next
  case (Cons tok toks)
  have wf: "list_all wellFormed toks" and wft: "wellFormed tok" using Cons.prems by auto
  have ok: "\<not> List.member unsupportedUnicodeTargets t \<or> list_all (\<lambda>k. \<not> isUnicodeEscape k) toks"
    using Cons.prems by auto
  have src: "sourceText (tok # toks) @ rest = tokenSource tok @ sourceText toks @ rest" for rest
    by (simp add: sourceText_def)
  have tgt: "rewrittenText t (tok # toks) = tokenTarget t tok @ rewrittenText t toks"
    by (simp add: rewrittenText_def)
  have keep: ?case
    if "\<And>X. rewriteFrom t p (tokenSource tok @ X) = rewriteFrom t (p @ tokenSource tok) X"
      and "tokenTarget t tok = tokenSource tok"
  proof -
    from Cons.IH[OF wf ok, of "p @ tokenSource tok"] obtain F P where
      FP: "F @ P = (p @ tokenSource tok) @ rewrittenText t toks"
      and R: "\<And>rest. rewriteFrom t (p @ tokenSource tok) (sourceText toks @ rest)
                  = map_option (\<lambda>(f, q). (F @ f, q)) (rewriteFrom t P rest)"
      by blast
    show ?thesis
      by (rule exI[of _ F], rule exI[of _ P]) (simp add: src tgt that FP R)
  qed
  have flush: ?case
    if "\<And>X. rewriteFrom t p (tokenSource tok @ X)
           = map_option (\<lambda>(f, q). (p @ tokenTarget t tok @ f, q)) (rewriteFrom t [] X)"
  proof -
    from Cons.IH[OF wf ok, of "[]"] obtain F P where
      FP: "F @ P = rewrittenText t toks"
      and R: "\<And>rest. rewriteFrom t [] (sourceText toks @ rest)
                  = map_option (\<lambda>(f, q). (F @ f, q)) (rewriteFrom t P rest)"
      by auto
    show ?thesis
      by (rule exI[of _ "p @ tokenTarget t tok @ F"], rule exI[of _ P])
         (simp add: src tgt that FP R option.map_comp comp_def case_prod_unfold)
  qed
  show ?case
  proof (cases tok)
    case (Chr c)
    then show ?thesis using wft by (intro keep) (simp_all add: rewriteFrom_plain)
  next
    case (Esc d)
    then show ?thesis using wft by (intro keep) simp_all
  next
    case (HexEsc a b)
    show ?thesis
    proof (cases "List.member unsupportedHexTargets t")
      case True
      then show ?thesis using wft HexEsc by (intro flush) (simp add: rewriteFrom_hex_token del: rewriteFrom.simps)
    next
      case False
      then show ?thesis using wft HexEsc by (intro keep) (simp_all add: rewriteFrom_hex_token del: rewriteFrom.simps)
    qed
  next
    case (UniEsc a b c d)
    then have "\<not> List.member unsupportedUnicodeTargets t" using Cons.prems(2) by auto
    then show ?thesis using wft UniEsc by (intro flush) (simp add: rewriteFrom_uni_token del: rewriteFrom.simps)
  next
    case UniBrace
    then have "\<not> List.member unsupportedUnicodeTargets t" using Cons.prems(2) by auto
    then show ?thesis using UniBrace by (intro keep) (simp_all add: rewriteFrom_brace_token del: rewriteFrom.simps)
  qed
qed

lemma sourceText_Nil_iff: "sourceText toks = [] \<longleftrightarrow> toks = []"
proof (cases toks)
  case Nil
  then show ?thesis by (simp add: sourceText_def)
next
  case (Cons k ks)
  then show ?thesis by (cases k) (simp_all add: sourceText_def)
qed

lemma rewriteFrom_short: "length post \<le> 1 \<Longrightarrow> rewriteFrom t P post = Some ([], P @ post)"
proof (cases post)
  case Nil
  then show ?thesis by simp
next
  case (Cons x xs)
  assume "length post \<le> 1"
  with Cons have "xs = []" by simp
  with Cons show ?thesis by simp
qed

lemma hasBody_parts:
  assumes "hasBody node body"
  obtains T ts te where "pos node \<noteq> -1" "literalText node = (T, ts, te)"
    "slice T ts te = body" "drop (nat ts) T = body @ drop (nat te) T"
  using assms by (auto simp: hasBody_def split: prod.splits)

lemma runTransformer_tokens:
  assumes wf: "list_all wellFormed toks"
    and ok: "\<not> List.member unsupportedUnicodeTargets (target st)
              \<or> list_all (\<lambda>k. \<not> isUnicodeEscape k) toks"
    and body: "hasBody node (sourceText toks)"
  shows "\<exists>st'. runTransformer st node c = (rewrittenText (target st) toks, st', c)
               \<and> target st' = target st"
proof -
  from body obtain T ts te where n: "pos node \<noteq> -1" "literalText node = (T, ts, te)"
    and sl: "slice T ts te = sourceText toks"
    and dr: "drop (nat ts) T = sourceText toks @ drop (nat te) T"
    by (rule hasBody_parts)
  note b = literalText_bounds[OF n(2)]
  show ?thesis
  proof (cases "T = []")
    case True
    then have "toks = []" using sl by (simp add: slice_def sourceText_Nil_iff[symmetric])
    then show ?thesis using True n by (simp add: runTransformer_def rewrittenText_def)
  next
    case False
    then have te0: "0 \<le> te" using b(3) by (cases T) auto
    define post where "post = drop (nat te) T"
    have lp: "length post = nat (int (length T) - te)" using te0 by (simp add: post_def)
    have short: "length post \<le> 1" using lp b(3) by linarith
    from rewriteFrom_tokens[OF wf ok, where p="[]"] obtain F P where
      FP: "F @ P = rewrittenText (target st) toks"
      and R: "\<And>rest. rewriteFrom (target st) [] (sourceText toks @ rest)
                  = map_option (\<lambda>(f, q). (F @ f, q)) (rewriteFrom (target st) P rest)"
      by auto
    have "rewriteFrom (target st) [] (drop (nat ts) T) = Some (F, P @ post)"
      unfolding dr post_def[symmetric] R by (simp add: rewriteFrom_short[OF short])
    with runTransformer_rewriteFrom[OF n False, of st c] lp FP show ?thesis by auto
  qed
qed

lemma runTransformer_abort:
  assumes wf: "list_all wellFormed toks"
    and nu: "list_all (\<lambda>k. \<not> isUnicodeEscape k) toks"
    and un: "List.member unsupportedUnicodeTargets (target st)"
    and body: "hasBody node (sourceText toks @ 92 # 117 # rest)"
  shows "\<exists>st'. runTransformer st node c
           = (sourceText toks @ 92 # 117 # rest, st',
              c\<lparr>diagnostics := diagnostics c @ [unsupportedUnicodeEscape node (target st)]\<rparr>)
         \<and> target st' = target st"
proof -
  from body obtain T ts te where n: "pos node \<noteq> -1" "literalText node = (T, ts, te)"
    and sl: "slice T ts te = sourceText toks @ 92 # 117 # rest"
    and dr: "drop (nat ts) T = (sourceText toks @ 92 # 117 # rest) @ drop (nat te) T"
    by (rule hasBody_parts)
  have ne: "T \<noteq> []" using dr by auto
  from rewriteFrom_tokens[OF wf disjI2[OF nu], where t="target st" and p="[]"] obtain F P where
    R: "\<And>rest. rewriteFrom (target st) [] (sourceText toks @ rest)
                = map_option (\<lambda>(f, q). (F @ f, q)) (rewriteFrom (target st) P rest)"
    by auto
  have "rewriteFrom (target st) [] (drop (nat ts) T) = None"
    using R[of "92 # 117 # rest @ drop (nat te) T"] un by (simp add: dr)
  with runTransformer_rewriteFrom[OF n ne, of st c] sl show ?thesis by auto
qed

lemma hasBody_rawLiteral: "hasBody (rawLiteral raw) raw"
  by (simp add: hasBody_def rawLiteral_def literalText_def slice_nonneg)

lemma hasBody_quotedLiteral: "hasBody (quotedLiteral raw) raw"
proof -
  have "nat (1 + int (length raw)) = Suc (length raw)" by simp
  then show ?thesis
    by (simp add: hasBody_def quotedLiteral_def literalText_def slice_nonneg)
qed

lemma literalText_rawLiteral: "literalText (rawLiteral raw) = (raw, 0, int (length raw))"
  by (simp add: literalText_def rawLiteral_def)

lemma rewrite_rewriteFrom:
  "rewrite t raw = (case rewriteFrom t [] raw of None \<Rightarrow> raw | Some (f, q) \<Rightarrow> f @ q)"
proof (cases "raw = []")
  case True
  then show ?thesis
    by (simp add: rewrite_def runTransformer_def literalText_rawLiteral) (simp add: rawLiteral_def)
next
  case False
  have p: "pos (rawLiteral raw) \<noteq> -1" by (simp add: rawLiteral_def)
  from runTransformer_rewriteFrom[OF p literalText_rawLiteral False,
      of "createTransformer t" "\<lparr>luaTarget = t, diagnostics = []\<rparr>"]
  show ?thesis
    by (auto simp: rewrite_def createTransformer_def slice_nonneg split: option.splits)
qed

subsection \<open>The scanned text and what \<open>textEnd\<close> cuts off\<close>

lemma cutOff_length: "length (cutOff node) \<le> 1"
proof -
  obtain T ts te where lt: "literalText node = (T, ts, te)" by (cases "literalText node")
  from literalText_bounds[OF lt] show ?thesis by (simp add: cutOff_def lt)
qed

lemma cutOff_rawLiteral: "cutOff (rawLiteral raw) = []"
  by (simp add: cutOff_def literalText_rawLiteral)

lemma cutOff_quotedLiteral: "cutOff (quotedLiteral raw) = [34]"
proof -
  have "nat (1 + int (length raw)) = Suc (length raw)" by simp
  then show ?thesis by (simp add: cutOff_def quotedLiteral_def literalText_def)
qed

lemma hasBody_scannedText: "hasBody node body \<Longrightarrow> scannedText node = body @ cutOff node"
  by (auto simp: hasBody_def scannedText_def cutOff_def split: prod.splits)

lemma hasBody_literalSpan: "hasBody node body \<Longrightarrow> literalSpan node = body"
  by (auto simp: hasBody_def literalSpan_def split: prod.splits)

lemma literalSpan_rawLiteral: "literalSpan (rawLiteral raw) = raw"
  using hasBody_literalSpan[OF hasBody_rawLiteral] .

lemma scannedText_nonempty: "scannedText node \<noteq> [] \<Longrightarrow> fst (literalText node) \<noteq> []"
  by (auto simp: scannedText_def split: prod.splits)

lemma runTransformer_scanned:
  assumes "pos node \<noteq> -1" "fst (literalText node) \<noteq> []"
  shows "case rewriteFrom (target st) [] (scannedText node) of
           None \<Rightarrow>
             fst (runTransformer st node c) = literalSpan node
             \<and> snd (snd (runTransformer st node c))
                 = c\<lparr>diagnostics := diagnostics c @ [unsupportedUnicodeEscape node (target st)]\<rparr>
         | Some (f, q) \<Rightarrow>
             fst (runTransformer st node c) = f @ take (length q - length (cutOff node)) q
             \<and> snd (snd (runTransformer st node c)) = c"
proof -
  obtain T ts te where lt: "literalText node = (T, ts, te)" by (cases "literalText node")
  have ne: "T \<noteq> []" using assms(2) by (simp add: lt)
  note b = literalText_bounds[OF lt]
  have te0: "0 \<le> te" using b(3) ne by (cases T) auto
  have len: "length (cutOff node) = nat (int (length T) - te)"
    using te0 b(2) by (simp add: cutOff_def lt)
  from runTransformer_rewriteFrom[OF assms(1) lt ne, of st c]
  show ?thesis
    by (auto simp: scannedText_def literalSpan_def lt len split: option.splits)
qed

lemma runTransformer_tokens_then:
  assumes wf: "list_all wellFormed toks"
    and ok: "\<not> List.member unsupportedUnicodeTargets (target st)
              \<or> list_all (\<lambda>k. \<not> isUnicodeEscape k) toks"
    and body: "hasBody node (sourceText toks @ 92 # esc)"
    and fin: "\<And>P. rewriteFrom (target st) P (92 # esc @ cutOff node) = Some (P @ out, [])
                  \<or> rewriteFrom (target st) P (92 # esc @ cutOff node)
                      = Some ([], P @ out @ cutOff node)"
  shows "fst (runTransformer st node c) = rewrittenText (target st) toks @ out
       \<and> snd (snd (runTransformer st node c)) = c"
proof -
  have p: "pos node \<noteq> -1" using body by (simp add: hasBody_def)
  have sc: "scannedText node = sourceText toks @ 92 # esc @ cutOff node"
    using hasBody_scannedText[OF body] by simp
  then have ne: "scannedText node \<noteq> []" by simp
  from rewriteFrom_tokens[OF wf ok, where p="[]"] obtain F P where
    FP: "F @ P = rewrittenText (target st) toks"
    and R: "\<And>rest. rewriteFrom (target st) [] (sourceText toks @ rest)
                = map_option (\<lambda>(f, q). (F @ f, q)) (rewriteFrom (target st) P rest)"
    by auto
  have FP': "F @ P @ X = rewrittenText (target st) toks @ X" for X
    using FP by (metis append.assoc)
  from fin[of P] show ?thesis
  proof
    assume a: "rewriteFrom (target st) P (92 # esc @ cutOff node) = Some (P @ out, [])"
    have "rewriteFrom (target st) [] (scannedText node) = Some (F @ P @ out, [])"
      unfolding sc R a by simp
    with runTransformer_scanned[OF p scannedText_nonempty[OF ne], of st c] show ?thesis
      by (simp add: FP')
  next
    assume a: "rewriteFrom (target st) P (92 # esc @ cutOff node) = Some ([], P @ out @ cutOff node)"
    then have "rewriteFrom (target st) [] (scannedText node) = Some (F, P @ out @ cutOff node)"
      unfolding sc R by simp
    with runTransformer_scanned[OF p scannedText_nonempty[OF ne], of st c] show ?thesis
      by (simp add: FP')
  qed
qed

subsection \<open>The scan up to a Unicode escape\<close>

lemma rewriteFrom_passedOver:
  assumes "List.member unsupportedUnicodeTargets t" "list_all (passedOver t) toks"
  shows "rewriteFrom t p (sourceText toks @ 92 # 117 # rest) = None"
  using assms(2)
proof (induction toks arbitrary: p)
  case Nil
  show ?case using assms(1) by (simp add: sourceText_def)
next
  case (Cons tok toks)
  have src: "sourceText (k # ks) @ X = tokenSource k @ sourceText ks @ X" for k ks X
    by (simp add: sourceText_def)
  have IH: "rewriteFrom t p' (sourceText toks @ 92 # 117 # rest) = None" for p'
    using Cons by simp
  obtain y ys where ys: "sourceText toks @ 92 # 117 # rest = y # ys"
    by (cases "sourceText toks @ 92 # 117 # rest") auto
  show ?case
  proof (cases tok)
    case (Chr c)
    then show ?thesis using Cons.prems IH by (simp add: src rewriteFrom_plain del: rewriteFrom.simps)
  next
    case (Esc d)
    then show ?thesis using Cons.prems IH by (auto simp: src)
  next
    case (HexEsc a b)
    show ?thesis
    proof (cases "List.member unsupportedHexTargets t")
      case True
      then show ?thesis using HexEsc IH[of "[]"] by (simp add: src)
    next
      case False
      then have ab: "a \<noteq> 92" "b \<noteq> 92" using Cons.prems HexEsc by auto
      have "rewriteFrom t p (92 # 120 # a # b # sourceText toks @ 92 # 117 # rest)
          = rewriteFrom t (p @ [92, 120]) (a # b # sourceText toks @ 92 # 117 # rest)"
        using False by simp
      also have "\<dots> = rewriteFrom t (p @ [92, 120] @ [a] @ [b]) (sourceText toks @ 92 # 117 # rest)"
        using ab by (simp add: rewriteFrom_plain del: rewriteFrom.simps)
      finally show ?thesis using HexEsc IH by (simp add: src del: rewriteFrom.simps)
    qed
  next
    case (UniEsc a b c d)
    then show ?thesis using Cons.prems by simp
  next
    case UniBrace
    then show ?thesis using Cons.prems by simp
  qed
qed

lemma rewriteFrom_None_tokens:
  "List.member unsupportedUnicodeTargets t \<Longrightarrow> rewriteFrom t p xs = None \<Longrightarrow>
   \<exists>toks rest. list_all (passedOver t) toks \<and> xs = sourceText toks @ 92 # 117 # rest"
proof (induction t p xs rule: rewriteFrom.induct)
  case (1 t pending)
  then show ?case by simp
next
  case (2 t pending c)
  then show ?case by simp
next
  case (3 t pending c d ys)
  note un = "3.prems"(1) and none = "3.prems"(2)
  have cons: "\<exists>toks rest. list_all (passedOver t) toks \<and> c # d # ys = sourceText toks @ 92 # 117 # rest"
    if "passedOver t tok" "c # d # ys = tokenSource tok @ X"
      "\<exists>toks rest. list_all (passedOver t) toks \<and> X = sourceText toks @ 92 # 117 # rest"
    for tok X
  proof -
    from that(3) obtain toks rest where
      "list_all (passedOver t) toks" "X = sourceText toks @ 92 # 117 # rest" by blast
    then have "list_all (passedOver t) (tok # toks)"
      "c # d # ys = sourceText (tok # toks) @ 92 # 117 # rest"
      using that(1,2) by (simp_all add: sourceText_def)
    then show ?thesis by blast
  qed
  show ?case
  proof (cases "c = 92")
    case False
    then have "rewriteFrom t (pending @ [c]) (d # ys) = None" using none by simp
    from "3.IH"(1)[OF False un this] have
      "\<exists>toks rest. list_all (passedOver t) toks \<and> d # ys = sourceText toks @ 92 # 117 # rest" .
    then show ?thesis using False by (intro cons[of "Chr c" "d # ys"]) simp_all
  next
    case c: True
    then have nc: "\<not> c \<noteq> 92" by simp
    show ?thesis
    proof (cases "d = 120")
      case x: True
      show ?thesis
      proof (cases "List.member unsupportedHexTargets t")
        case True
        then have n: "rewriteFrom t [] (drop 2 ys) = None"
          using none c x by (auto split: option.splits)
        then have "drop 2 ys \<noteq> []" by auto
        then obtain a b where ab: "ys = a # b # drop 2 ys"
          by (cases ys; cases "tl ys") auto
        have e: "c # d # ys = tokenSource (HexEsc a b) @ drop 2 ys" using c x ab by simp
        from "3.IH"(2)[OF nc x True un n] have
          "\<exists>toks rest. list_all (passedOver t) toks \<and> drop 2 ys = sourceText toks @ 92 # 117 # rest" .
        then show ?thesis using True by (intro cons[OF _ e]) simp_all
      next
        case False
        then have n: "rewriteFrom t (pending @ [92, 120]) ys = None" using none c x by simp
        from "3.IH"(3)[OF nc x False un n] have
          "\<exists>toks rest. list_all (passedOver t) toks \<and> ys = sourceText toks @ 92 # 117 # rest" .
        then show ?thesis using c x False by (intro cons[of "Esc 120" ys]) simp_all
      qed
    next
      case nx: False
      show ?thesis
      proof (cases "d = 117")
        case True
        have "list_all (passedOver t) []" "c # d # ys = sourceText [] @ 92 # 117 # ys"
          using c True by (simp_all add: sourceText_def)
        then show ?thesis by blast
      next
        case False
        then have n: "rewriteFrom t (pending @ [92, d]) ys = None" using none c nx by simp
        from "3.IH"(6)[OF nc nx False un n] have
          "\<exists>toks rest. list_all (passedOver t) toks \<and> ys = sourceText toks @ 92 # 117 # rest" .
        then show ?thesis using c nx False by (intro cons[of "Esc d" ys]) simp_all
      qed
    qed
  qed
qed

subsection \<open>The claims about rewriting tokens\<close>

lemma unsupportedHex_subset:
  "List.member unsupportedHexTargets t \<Longrightarrow> List.member unsupportedUnicodeTargets t"
  by (auto simp: unsupportedHexTargets_def unsupportedUnicodeTargets_def)

lemma rewrittenText_braced:
  "\<not> List.member unsupportedUnicodeTargets t \<Longrightarrow> rewrittenText t toks = bracedText toks"
proof (induction toks)
  case Nil
  show ?case by (simp add: rewrittenText_def bracedText_def)
next
  case (Cons k ks)
  then have "tokenTarget t k = tokenBraced k"
    using unsupportedHex_subset[of t] by (cases k) auto
  with Cons show ?case by (simp add: rewrittenText_def bracedText_def)
qed

lemma first_unicode_token:
  assumes "\<not> list_all (\<lambda>k. \<not> isUnicodeEscape k) toks"
  shows "\<exists>pre rest. list_all (\<lambda>k. \<not> isUnicodeEscape k) pre \<and> set pre \<subseteq> set toks
            \<and> sourceText toks = sourceText pre @ 92 # 117 # rest"
  using assms
proof (induction toks)
  case Nil
  then show ?case by simp
next
  case (Cons k ks)
  show ?case
  proof (cases "isUnicodeEscape k")
    case True
    then obtain r where "tokenSource k = 92 # 117 # r" by (cases k) auto
    then have "sourceText (k # ks) = sourceText [] @ 92 # 117 # (r @ sourceText ks)"
      by (simp add: sourceText_def)
    then show ?thesis by (intro exI[of _ "[]"] exI[of _ "r @ sourceText ks"]) simp
  next
    case False
    with Cons obtain pre rest where p: "list_all (\<lambda>k. \<not> isUnicodeEscape k) pre"
      "set pre \<subseteq> set ks" "sourceText ks = sourceText pre @ 92 # 117 # rest"
      by auto
    have "sourceText (k # ks) = sourceText (k # pre) @ 92 # 117 # rest"
      using p(3) by (simp add: sourceText_def)
    with p False show ?thesis
      by (intro exI[of _ "k # pre"] exI[of _ rest]) auto
  qed
qed

lemma runTransformer_diagnostics:
  "snd (snd (runTransformer st node c)) = c
   \<or> (snd (snd (runTransformer st node c))
         = c\<lparr>diagnostics := diagnostics c @ [unsupportedUnicodeEscape node (target st)]\<rparr>
       \<and> fst (runTransformer st node c) = literalSpan node)"
proof (cases "pos node = -1")
  case True
  then show ?thesis by (simp add: runTransformer_def)
next
  case False
  obtain T ts te where lt: "literalText node = (T, ts, te)" by (cases "literalText node")
  show ?thesis
  proof (cases "T = []")
    case True
    then show ?thesis using False lt by (simp add: runTransformer_def)
  next
    case ne: False
    from runTransformer_rewriteFrom[OF False lt ne, of st c] lt
    show ?thesis by (auto simp: literalSpan_def split: option.splits)
  qed
qed

lemmas token_eval = sourceText_def rewrittenText_def bracedText_def isHexDigit_def
  hexDigitValue_def toString10_small toString10_big digitChar_def
  unsupportedUnicodeTargets_def unsupportedHexTargets_def createTransformer_def

lemmas number_eval = NumberOfHex_def numberToString_def hexValue_def isStrWhiteSpaceChar_def

text \<open>
  C1, as stated, speaks of every literal that holds a \<open>\u\<close> escape.  Against Lua 5.0 or
  5.1 the two characters after \<open>\x\<close> are consumed as its payload, whatever they are: in the
  literal \<open>\x\u0041\<close> the scan never reads the \<open>\u\<close>; it returns \<open>\NaN0041\<close> and pushes no
  diagnostic.  C1 amended: against a target that supports no Unicode escape (a member of
  \<open>unsupportedUnicodeTargets\<close>: Lua 5.0, 5.1, 5.2) and in every state of the transformer, a
  literal in which the scan reaches a \<open>\u\<close> escape is returned as its original span
  exactly, without the rewrites of earlier \<open>\xHH\<close> tokens that were in the buffer, and
  exactly one diagnostic, for this node and target, is pushed to the context; nothing
  else of the context changes.  The scan reaches a \<open>\u\<close> when the text before it divides
  into plain characters, escapes \<open>\c\<close> other than \<open>\u\<close> (and other than \<open>\x\<close> where the target
  rewrites hex escapes), and \<open>\x\<close> with the two characters after it (any two characters
  where the target rewrites hex escapes, two characters other than the backslash where it
  does not); whatever follows the \<open>\u\<close> is not read.  For every literal at all, this one
  diagnostic is pushed and the original span returned exactly when the node has a source
  position and the text that the scan walks has the form just described; in every other
  case the context is left as it was.
\<close>

theorem unicode_escape_aborts_rewrite:
  assumes "List.member unsupportedUnicodeTargets (target st)"
    and "list_all (passedOver (target st)) toks"
    and "hasBody node (sourceText toks @ 92 # 117 # rest)"
  shows "fst (runTransformer st node c) = sourceText toks @ 92 # 117 # rest
       \<and> literalSpan node = sourceText toks @ 92 # 117 # rest
       \<and> snd (snd (runTransformer st node c))
           = c\<lparr>diagnostics := diagnostics c @ [unsupportedUnicodeEscape node (target st)]\<rparr>
       \<and> (\<forall>node' c'.
             if pos node' \<noteq> -1
                \<and> (\<exists>toks' rest'. list_all (passedOver (target st)) toks'
                       \<and> scannedText node' = sourceText toks' @ 92 # 117 # rest')
             then snd (snd (runTransformer st node' c'))
                    = c'\<lparr>diagnostics :=
                          diagnostics c' @ [unsupportedUnicodeEscape node' (target st)]\<rparr>
                  \<and> fst (runTransformer st node' c') = literalSpan node'
             else snd (snd (runTransformer st node' c')) = c')"
proof -
  have p: "pos node \<noteq> -1" using assms(3) by (simp add: hasBody_def)
  have sc: "scannedText node = sourceText toks @ 92 # 117 # (rest @ cutOff node)"
    using hasBody_scannedText[OF assms(3)] by simp
  then have ne: "scannedText node \<noteq> []" by simp
  have "rewriteFrom (target st) [] (scannedText node) = None"
    unfolding sc by (rule rewriteFrom_passedOver[OF assms(1,2)])
  with runTransformer_scanned[OF p scannedText_nonempty[OF ne], of st c]
    hasBody_literalSpan[OF assms(3)]
  have main: "fst (runTransformer st node c) = sourceText toks @ 92 # 117 # rest"
    "literalSpan node = sourceText toks @ 92 # 117 # rest"
    "snd (snd (runTransformer st node c))
           = c\<lparr>diagnostics := diagnostics c @ [unsupportedUnicodeEscape node (target st)]\<rparr>"
    by simp_all
  have conv: "if pos node' \<noteq> -1
                \<and> (\<exists>toks' rest'. list_all (passedOver (target st)) toks'
                       \<and> scannedText node' = sourceText toks' @ 92 # 117 # rest')
             then snd (snd (runTransformer st node' c'))
                    = c'\<lparr>diagnostics :=
                          diagnostics c' @ [unsupportedUnicodeEscape node' (target st)]\<rparr>
                  \<and> fst (runTransformer st node' c') = literalSpan node'
             else snd (snd (runTransformer st node' c')) = c'" for node' c'
  proof (cases "pos node' \<noteq> -1
                \<and> (\<exists>toks' rest'. list_all (passedOver (target st)) toks'
                       \<and> scannedText node' = sourceText toks' @ 92 # 117 # rest')")
    case True
    then obtain toks' rest' where p': "pos node' \<noteq> -1"
      and t': "list_all (passedOver (target st)) toks'"
      and s': "scannedText node' = sourceText toks' @ 92 # 117 # rest'"
      by blast
    have ne': "scannedText node' \<noteq> []" using s' by simp
    have "rewriteFrom (target st) [] (scannedText node') = None"
      unfolding s' by (rule rewriteFrom_passedOver[OF assms(1) t'])
    with runTransformer_scanned[OF p' scannedText_nonempty[OF ne'], of st c']
    have "snd (snd (runTransformer st node' c'))
                    = c'\<lparr>diagnostics :=
                          diagnostics c' @ [unsupportedUnicodeEscape node' (target st)]\<rparr>
                  \<and> fst (runTransformer st node' c') = literalSpan node'"
      by simp
    then show ?thesis by (subst if_P[OF True])
  next
    case False
    have "snd (snd (runTransformer st node' c')) = c'"
    proof (cases "pos node' = -1 \<or> fst (literalText node') = []")
      case True
      then show ?thesis by (auto simp: runTransformer_def split: prod.splits)
    next
      case nt: False
      then have p': "pos node' \<noteq> -1" and ne': "fst (literalText node') \<noteq> []" by auto
      show ?thesis
      proof (cases "rewriteFrom (target st) [] (scannedText node')")
        case None
        from rewriteFrom_None_tokens[OF assms(1) None] p' False show ?thesis by blast
      next
        case (Some fq)
        with runTransformer_scanned[OF p' ne', of st c'] show ?thesis by (auto split: prod.splits)
      qed
    qed
    then show ?thesis by (subst if_not_P[OF False])
  qed
  show ?thesis using main conv by blast
qed

theorem unicode_escape_aborts_rewrite_witness:
  "List.member unsupportedUnicodeTargets (target (createTransformer Lua51))
   \<and> list_all (passedOver (target (createTransformer Lua51))) [Chr 97, HexEsc 52 49, HexEsc 90 90]
   \<and> hasBody (quotedLiteral [97, 92, 120, 52, 49, 92, 120, 90, 90, 92, 117, 48, 48, 52, 49])
        (sourceText [Chr 97, HexEsc 52 49, HexEsc 90 90] @ 92 # 117 # [48, 48, 52, 49])
   \<and> fst (runTransformer (createTransformer Lua51)
             (quotedLiteral [97, 92, 120, 52, 49, 92, 120, 90, 90, 92, 117, 48, 48, 52, 49])
             \<lparr>luaTarget = Lua51, diagnostics = []\<rparr>)
       = [97, 92, 120, 52, 49, 92, 120, 90, 90, 92, 117, 48, 48, 52, 49]
   \<and> diagnostics (snd (snd (runTransformer (createTransformer Lua51)
             (quotedLiteral [97, 92, 120, 52, 49, 92, 120, 90, 90, 92, 117, 48, 48, 52, 49])
             \<lparr>luaTarget = Lua51, diagnostics = []\<rparr>)))
       = [unsupportedUnicodeEscape
            (quotedLiteral [97, 92, 120, 52, 49, 92, 120, 90, 90, 92, 117, 48, 48, 52, 49]) Lua51]"
  using unicode_escape_aborts_rewrite[of "createTransformer Lua51"
      "[Chr 97, HexEsc 52 49, HexEsc 90 90]"
      "quotedLiteral [97, 92, 120, 52, 49, 92, 120, 90, 90, 92, 117, 48, 48, 52, 49]"
      "[48, 48, 52, 49]" "\<lparr>luaTarget = Lua51, diagnostics = []\<rparr>"]
    hasBody_quotedLiteral[of "[97, 92, 120, 52, 49, 92, 120, 90, 90, 92, 117, 48, 48, 52, 49]"]
  by (simp add: token_eval)

theorem unicode_escape_in_hex_payload_not_reported:
  "fst (runTransformer (createTransformer Lua51) (rawLiteral [92, 120, 92, 117, 48, 48, 52, 49])
          \<lparr>luaTarget = Lua51, diagnostics = []\<rparr>)
     = [92, 78, 97, 78, 48, 48, 52, 49]
   \<and> fst (runTransformer (createTransformer Lua51) (rawLiteral [92, 120, 92, 117, 48, 48, 52, 49])
          \<lparr>luaTarget = Lua51, diagnostics = []\<rparr>)
     \<noteq> literalSpan (rawLiteral [92, 120, 92, 117, 48, 48, 52, 49])
   \<and> diagnostics (snd (snd (runTransformer (createTransformer Lua51)
          (rawLiteral [92, 120, 92, 117, 48, 48, 52, 49])
          \<lparr>luaTarget = Lua51, diagnostics = []\<rparr>))) = []"
proof -
  have r: "rewrite Lua51 [92, 120, 92, 117, 48, 48, 52, 49] = [92, 78, 97, 78, 48, 48, 52, 49]"
    by (simp add: rewrite_rewriteFrom token_eval number_eval)
  from runTransformer_diagnostics[of "createTransformer Lua51"
      "rawLiteral [92, 120, 92, 117, 48, 48, 52, 49]" "\<lparr>luaTarget = Lua51, diagnostics = []\<rparr>"]
    r
  show ?thesis by (auto simp: rewrite_def literalSpan_rawLiteral)
qed

text \<open>
  C2, as stated, says that the result is \<open>rewrittenText\<close> for every literal and target.
  Against Lua 5.0 or 5.1 a literal that also holds a \<open>\u\<close> escape is returned whole, its
  \<open>\xHH\<close> tokens not rewritten: \<open>\x41\u0041\<close> comes back as it is.  C2 amended: for every
  literal made of well-formed tokens and every target, unless the scan is aborted (the
  target has no Unicode escapes and the literal holds a \<open>\u\<close> escape), every \<open>\xHH\<close>
  token appears unchanged in the result where the target has hex escapes and as the
  decimal escape \<open>\ddd\<close> of its value, without padding, where it has none, all other
  characters in place and in order; when the scan is aborted the literal is returned
  unchanged, \<open>\xHH\<close> tokens included.
\<close>

theorem hex_escapes_rewritten_unless_aborted:
  assumes "list_all wellFormed toks" and "hasBody node (sourceText toks)"
  shows "fst (runTransformer st node c)
       = (if List.member unsupportedUnicodeTargets (target st)
             \<and> \<not> list_all (\<lambda>k. \<not> isUnicodeEscape k) toks
          then sourceText toks
          else rewrittenText (target st) toks)"
proof (cases "List.member unsupportedUnicodeTargets (target st)
              \<and> \<not> list_all (\<lambda>k. \<not> isUnicodeEscape k) toks")
  case True
  then obtain pre rest where p: "list_all (\<lambda>k. \<not> isUnicodeEscape k) pre" "set pre \<subseteq> set toks"
    "sourceText toks = sourceText pre @ 92 # 117 # rest"
    using first_unicode_token by blast
  have wf: "list_all wellFormed pre" using assms(1) p(2) by (auto simp: list_all_iff)
  from runTransformer_abort[OF wf p(1), of st node rest c] True assms(2) p(3)
  show ?thesis by auto
next
  case False
  then have "\<not> List.member unsupportedUnicodeTargets (target st)
              \<or> list_all (\<lambda>k. \<not> isUnicodeEscape k) toks" by blast
  from runTransformer_tokens[OF assms(1) this assms(2), of c] False show ?thesis by auto
qed

theorem hex_escapes_rewritten_unless_aborted_witness:
  "list_all wellFormed [Chr 97, HexEsc 52 49, Chr 98]
   \<and> hasBody (quotedLiteral [97, 92, 120, 52, 49, 98]) (sourceText [Chr 97, HexEsc 52 49, Chr 98])
   \<and> fst (runTransformer (createTransformer Lua51) (quotedLiteral [97, 92, 120, 52, 49, 98])
             \<lparr>luaTarget = Lua51, diagnostics = []\<rparr>) = [97, 92, 54, 53, 98]
   \<and> fst (runTransformer (createTransformer Lua52) (quotedLiteral [97, 92, 120, 52, 49, 98])
             \<lparr>luaTarget = Lua52, diagnostics = []\<rparr>) = [97, 92, 120, 52, 49, 98]"
  using hex_escapes_rewritten_unless_aborted[of "[Chr 97, HexEsc 52 49, Chr 98]"
      "quotedLiteral [97, 92, 120, 52, 49, 98]" "createTransformer Lua51"
      "\<lparr>luaTarget = Lua51, diagnostics = []\<rparr>"]
    hex_escapes_rewritten_unless_aborted[of "[Chr 97, HexEsc 52 49, Chr 98]"
      "quotedLiteral [97, 92, 120, 52, 49, 98]" "createTransformer Lua52"
      "\<lparr>luaTarget = Lua52, diagnostics = []\<rparr>"]
    hasBody_quotedLiteral[of "[97, 92, 120, 52, 49, 98]"]
  by (simp add: token_eval)

theorem hex_escape_kept_on_abort:
  "fst (runTransformer (createTransformer Lua51)
          (quotedLiteral [92, 120, 52, 49, 92, 117, 48, 48, 52, 49])
          \<lparr>luaTarget = Lua51, diagnostics = []\<rparr>)
     \<noteq> rewrittenText Lua51 [HexEsc 52 49, UniEsc 48 48 52 49]"
proof -
  have "hasBody (quotedLiteral [92, 120, 52, 49, 92, 117, 48, 48, 52, 49])
          (sourceText [HexEsc 52 49] @ 92 # 117 # [48, 48, 52, 49])"
    using hasBody_quotedLiteral[of "[92, 120, 52, 49, 92, 117, 48, 48, 52, 49]"]
    by (simp add: sourceText_def)
  from runTransformer_abort[OF _ _ _ this, of "createTransformer Lua51" "\<lparr>luaTarget = Lua51, diagnostics = []\<rparr>"]
  show ?thesis by (auto simp: token_eval)
qed

text \<open>
  C3, as stated, has every already-braced \<open>\u{\<dots>}\<close> left untouched in every literal.
  \<open>transformUnicodeEscape\<close> takes the four characters after a bare \<open>\u\<close> as they are: in
  \<open>\u12\u{41}\<close> the first escape has two payload characters, the scan puts \<open>12\u\<close>
  between braces and the result is \<open>\u{12\u}{41}\<close>, the braced escape gone.  C3 amended:
  against a target that supports Unicode escapes (not a member of
  \<open>unsupportedUnicodeTargets\<close>) and in every state of the transformer, for every literal
  that reads from left to right as a sequence of well-formed tokens (a plain character
  other than the backslash; an escape \<open>\c\<close> with \<open>c\<close> neither \<open>x\<close> nor \<open>u\<close>; \<open>\xHH\<close> with two
  hexadecimal digits; a bare \<open>\u\<close> with the four characters after it, of which the first
  is not an opening brace; the opening \<open>\u{\<close> of a braced escape), every bare \<open>\u\<close> token
  is rewritten to the braced form with the same four characters, every \<open>\u{\<close> and all the
  rest of the literal is left as written, and no diagnostic is pushed.
\<close>

theorem bare_unicode_escapes_braced:
  assumes "\<not> List.member unsupportedUnicodeTargets (target st)"
    and "list_all wellFormed toks" and "hasBody node (sourceText toks)"
  shows "fst (runTransformer st node c) = bracedText toks
       \<and> snd (snd (runTransformer st node c)) = c"
  using runTransformer_tokens[OF assms(2) disjI1[OF assms(1)] assms(3), of c]
    rewrittenText_braced[OF assms(1), of toks]
  by auto

theorem bare_unicode_escapes_braced_witness:
  "\<not> List.member unsupportedUnicodeTargets (target (createTransformer (OtherTarget ''5.3'')))
   \<and> list_all wellFormed [Chr 97, UniEsc 48 48 52 49, UniBrace, Chr 52, Chr 49, Chr 125, HexEsc 52 49]
   \<and> hasBody (quotedLiteral [97, 92, 117, 48, 48, 52, 49, 92, 117, 123, 52, 49, 125, 92, 120, 52, 49])
        (sourceText [Chr 97, UniEsc 48 48 52 49, UniBrace, Chr 52, Chr 49, Chr 125, HexEsc 52 49])
   \<and> fst (runTransformer (createTransformer (OtherTarget ''5.3''))
        (quotedLiteral [97, 92, 117, 48, 48, 52, 49, 92, 117, 123, 52, 49, 125, 92, 120, 52, 49])
        \<lparr>luaTarget = OtherTarget ''5.3'', diagnostics = []\<rparr>)
      = [97, 92, 117, 123, 48, 48, 52, 49, 125, 92, 117, 123, 52, 49, 125, 92, 120, 52, 49]"
  using bare_unicode_escapes_braced[of "createTransformer (OtherTarget ''5.3'')"
      "[Chr 97, UniEsc 48 48 52 49, UniBrace, Chr 52, Chr 49, Chr 125, HexEsc 52 49]"
      "quotedLiteral [97, 92, 117, 48, 48, 52, 49, 92, 117, 123, 52, 49, 125, 92, 120, 52, 49]"
      "\<lparr>luaTarget = OtherTarget ''5.3'', diagnostics = []\<rparr>"]
    hasBody_quotedLiteral[of "[97, 92, 117, 48, 48, 52, 49, 92, 117, 123, 52, 49, 125, 92, 120, 52, 49]"]
  by (simp add: token_eval)

theorem braced_escape_in_bare_payload_rewritten:
  "sourceText [Esc 117, Chr 49, Chr 50, UniBrace, Chr 52, Chr 49, Chr 125]
     = [92, 117, 49, 50, 92, 117, 123, 52, 49, 125]
   \<and> fst (runTransformer (createTransformer (OtherTarget ''5.3''))
            (rawLiteral [92, 117, 49, 50, 92, 117, 123, 52, 49, 125])
            \<lparr>luaTarget = OtherTarget ''5.3'', diagnostics = []\<rparr>)
     = [92, 117, 123, 49, 50, 92, 117, 125, 123, 52, 49, 125]
   \<and> fst (runTransformer (createTransformer (OtherTarget ''5.3''))
            (rawLiteral [92, 117, 49, 50, 92, 117, 123, 52, 49, 125])
            \<lparr>luaTarget = OtherTarget ''5.3'', diagnostics = []\<rparr>)
     \<noteq> bracedText [Esc 117, Chr 49, Chr 50, UniBrace, Chr 52, Chr 49, Chr 125]"
proof -
  have r: "rewrite (OtherTarget ''5.3'') [92, 117, 49, 50, 92, 117, 123, 52, 49, 125]
      = [92, 117, 123, 49, 50, 92, 117, 125, 123, 52, 49, 125]"
    by (simp add: rewrite_rewriteFrom token_eval)
  then show ?thesis by (simp add: rewrite_def token_eval)
qed

subsection \<open>Truncated escapes\<close>

text \<open>
  C8, as stated, says that a literal ending in a \<open>\x\<close> or \<open>\u\<close> escape with too few
  payload characters is returned unchanged.  The code has no such check: against Lua 5.1
  the template text \<open>\x4\<close> becomes \<open>\4\<close>.  C8 amended: a truncated payload is not treated
  as a scan error.  For every literal whose text is a sequence of well-formed tokens
  (with no \<open>\u\<close> escape among them where the target has no Unicode escapes, as that
  would abort the scan) followed by a \<open>\x\<close> or \<open>\u\<close> escape with too few payload
  characters \<open>p\<close>, and in every state of the transformer: \<open>slice\<close> clamps at the end of
  the scanned text, so nothing is read out of bounds, and where the target rewrites the
  escape form the token is built from what the scanned text still holds, which is \<open>p\<close>
  followed by \<open>q\<close>, the part of the scanned text behind the literal's span (nothing for a
  template literal, the closing quote for a quoted string literal).  Against a target without hex escapes, \<open>\x\<close>
  followed by fewer than two characters becomes the backslash and \<open>Number("0x" + p + q)\<close>
  in decimal, \<open>NaN\<close> unless \<open>p + q\<close> is hexadecimal digits followed by white space: the
  template text \<open>\x4\<close> becomes \<open>\4\<close>, the quoted \<open>"\x4"\<close> becomes \<open>\NaN\<close>.  Against a target with
  Unicode escapes, \<open>\u\<close> followed by fewer than four characters, \<open>p + q\<close> not starting with
  an opening brace, becomes \<open>\u{\<close>, \<open>p + q\<close>, \<open>}\<close>: the template text \<open>\u00\<close> becomes
  \<open>\u{00}\<close>, the quoted \<open>"\u00"\<close> becomes \<open>\u{00"}\<close>.  Against a target with hex escapes,
  which never rewrites \<open>\x\<close>, a truncated \<open>\x\<close> is returned as written (for \<open>q\<close> empty or
  \<open>p\<close> not a backslash).  In all three cases the text before the escape is rewritten as
  usual and no diagnostic is pushed.  (Against a target without Unicode escapes a
  truncated \<open>\u\<close> aborts the scan like any other \<open>\u\<close>.)
\<close>

theorem truncated_escape_is_rewritten:
  assumes "list_all wellFormed toks"
    and "\<not> List.member unsupportedUnicodeTargets (target st)
         \<or> list_all (\<lambda>k. \<not> isUnicodeEscape k) toks"
  shows "(List.member unsupportedHexTargets (target st) \<and> length p < 2
            \<and> hasBody node (sourceText toks @ [92, 120] @ p) \<longrightarrow>
            fst (runTransformer st node c)
              = rewrittenText (target st) toks
                @ 92 # numberToString (NumberOfHex (p @ cutOff node))
            \<and> snd (snd (runTransformer st node c)) = c)
       \<and> (\<not> List.member unsupportedUnicodeTargets (target st) \<and> length p < 4
            \<and> hasBody node (sourceText toks @ [92, 117] @ p)
            \<and> take 1 (p @ cutOff node) \<noteq> [123] \<longrightarrow>
            fst (runTransformer st node c)
              = rewrittenText (target st) toks @ [92, 117, 123] @ p @ cutOff node @ [125]
            \<and> snd (snd (runTransformer st node c)) = c)
       \<and> (\<not> List.member unsupportedHexTargets (target st) \<and> length p < 2
            \<and> hasBody node (sourceText toks @ [92, 120] @ p)
            \<and> (cutOff node = [] \<or> 92 \<notin> set p) \<longrightarrow>
            fst (runTransformer st node c) = rewrittenText (target st) toks @ [92, 120] @ p
            \<and> snd (snd (runTransformer st node c)) = c)
       \<and> cutOff (rawLiteral raw) = [] \<and> cutOff (quotedLiteral raw) = [34]"
proof -
  note len = cutOff_length[of node]
  have 1: "fst (runTransformer st node c)
              = rewrittenText (target st) toks
                @ 92 # numberToString (NumberOfHex (p @ cutOff node))
            \<and> snd (snd (runTransformer st node c)) = c"
    if a: "List.member unsupportedHexTargets (target st)" "length p < 2"
      "hasBody node (sourceText toks @ [92, 120] @ p)"
  proof -
    have l: "length (p @ cutOff node) \<le> 2" using a(2) len by simp
    have "rewriteFrom (target st) P (92 # 120 # (p @ cutOff node))
        = Some (P @ 92 # numberToString (NumberOfHex (p @ cutOff node)), [])" for P
      using a(1) l by simp
    then have "rewriteFrom (target st) P (92 # (120 # p) @ cutOff node)
        = Some (P @ 92 # numberToString (NumberOfHex (p @ cutOff node)), [])
      \<or> rewriteFrom (target st) P (92 # (120 # p) @ cutOff node)
        = Some ([], P @ (92 # numberToString (NumberOfHex (p @ cutOff node))) @ cutOff node)" for P
      by simp
    from runTransformer_tokens_then[OF assms _ this, of c] a(3) show ?thesis by simp
  qed
  have 2: "fst (runTransformer st node c)
              = rewrittenText (target st) toks @ [92, 117, 123] @ p @ cutOff node @ [125]
            \<and> snd (snd (runTransformer st node c)) = c"
    if a: "\<not> List.member unsupportedUnicodeTargets (target st)" "length p < 4"
      "hasBody node (sourceText toks @ [92, 117] @ p)" "take 1 (p @ cutOff node) \<noteq> [123]"
  proof -
    have l: "length (p @ cutOff node) \<le> 4" using a(2) len by simp
    have nb: "\<not> (case p @ cutOff node of [] \<Rightarrow> False | e # _ \<Rightarrow> e = 123)"
      using a(4) by (cases "p @ cutOff node") auto
    have "rewriteFrom (target st) P (92 # 117 # (p @ cutOff node))
        = Some (P @ [92, 117, 123] @ (p @ cutOff node) @ [125], [])" for P
      using a(1) l nb by simp
    then have "rewriteFrom (target st) P (92 # (117 # p) @ cutOff node)
        = Some (P @ ([92, 117, 123] @ p @ cutOff node @ [125]), [])
      \<or> rewriteFrom (target st) P (92 # (117 # p) @ cutOff node)
        = Some ([], P @ ([92, 117, 123] @ p @ cutOff node @ [125]) @ cutOff node)" for P
      by simp
    from runTransformer_tokens_then[OF assms _ this, of c] a(3) show ?thesis by simp
  qed
  have 3: "fst (runTransformer st node c) = rewrittenText (target st) toks @ [92, 120] @ p
            \<and> snd (snd (runTransformer st node c)) = c"
    if a: "\<not> List.member unsupportedHexTargets (target st)" "length p < 2"
      "hasBody node (sourceText toks @ [92, 120] @ p)" "cutOff node = [] \<or> 92 \<notin> set p"
  proof -
    have k: "rewriteFrom (target st) P' (p @ cutOff node) = Some ([], P' @ p @ cutOff node)" for P'
    proof (cases p)
      case Nil
      then show ?thesis using rewriteFrom_short[OF len, of "target st" P'] by simp
    next
      case (Cons x xs)
      then have px: "p = [x]" using a(2) by simp
      show ?thesis
      proof (cases "cutOff node = []")
        case True
        then show ?thesis using px by simp
      next
        case False
        then have "x \<noteq> 92" using a(4) px by simp
        then show ?thesis
          using rewriteFrom_short[OF len, of "target st" "P' @ [x]"] px
          by (simp add: rewriteFrom_plain del: rewriteFrom.simps)
      qed
    qed
    have "rewriteFrom (target st) P (92 # 120 # (p @ cutOff node))
        = Some ([], P @ [92, 120] @ p @ cutOff node)" for P
      using a(1) k[of "P @ [92, 120]"] by simp
    then have "rewriteFrom (target st) P (92 # (120 # p) @ cutOff node)
        = Some (P @ ([92, 120] @ p), [])
      \<or> rewriteFrom (target st) P (92 # (120 # p) @ cutOff node)
        = Some ([], P @ ([92, 120] @ p) @ cutOff node)" for P
      by simp
    from runTransformer_tokens_then[OF assms _ this, of c] a(3) show ?thesis by simp
  qed
  show ?thesis using 1 2 3 by (simp add: cutOff_rawLiteral cutOff_quotedLiteral)
qed

theorem truncated_escape_is_rewritten_witness:
  "list_all wellFormed [Chr 97]
   \<and> hasBody (rawLiteral [97, 92, 120, 52]) (sourceText [Chr 97] @ [92, 120] @ [52])
   \<and> fst (runTransformer (createTransformer Lua51) (rawLiteral [97, 92, 120, 52])
            \<lparr>luaTarget = Lua51, diagnostics = []\<rparr>) = [97, 92, 52]
   \<and> hasBody (quotedLiteral [97, 92, 120, 52]) (sourceText [Chr 97] @ [92, 120] @ [52])
   \<and> fst (runTransformer (createTransformer Lua51) (quotedLiteral [97, 92, 120, 52])
            \<lparr>luaTarget = Lua51, diagnostics = []\<rparr>) = [97, 92, 78, 97, 78]
   \<and> fst (runTransformer (createTransformer Lua52) (quotedLiteral [97, 92, 120, 52])
            \<lparr>luaTarget = Lua52, diagnostics = []\<rparr>) = [97, 92, 120, 52]
   \<and> hasBody (quotedLiteral [97, 92, 117, 48, 48]) (sourceText [Chr 97] @ [92, 117] @ [48, 48])
   \<and> fst (runTransformer (createTransformer (OtherTarget ''5.3''))
            (quotedLiteral [97, 92, 117, 48, 48])
            \<lparr>luaTarget = OtherTarget ''5.3'', diagnostics = []\<rparr>)
       = [97, 92, 117, 123, 48, 48, 34, 125]
   \<and> hasBody (rawLiteral [97, 92, 117, 48, 48]) (sourceText [Chr 97] @ [92, 117] @ [48, 48])
   \<and> fst (runTransformer (createTransformer (OtherTarget ''5.3''))
            (rawLiteral [97, 92, 117, 48, 48])
            \<lparr>luaTarget = OtherTarget ''5.3'', diagnostics = []\<rparr>)
       = [97, 92, 117, 123, 48, 48, 125]"
  using truncated_escape_is_rewritten[of "[Chr 97]" "createTransformer Lua51" "[52]"
          "rawLiteral [97, 92, 120, 52]" "\<lparr>luaTarget = Lua51, diagnostics = []\<rparr>"]
    truncated_escape_is_rewritten[of "[Chr 97]" "createTransformer Lua51" "[52]"
          "quotedLiteral [97, 92, 120, 52]" "\<lparr>luaTarget = Lua51, diagnostics = []\<rparr>"]
    truncated_escape_is_rewritten[of "[Chr 97]" "createTransformer Lua52" "[52]"
          "quotedLiteral [97, 92, 120, 52]" "\<lparr>luaTarget = Lua52, diagnostics = []\<rparr>"]
    truncated_escape_is_rewritten[of "[Chr 97]" "createTransformer (OtherTarget ''5.3'')"
          "[48, 48]" "quotedLiteral [97, 92, 117, 48, 48]"
          "\<lparr>luaTarget = OtherTarget ''5.3'', diagnostics = []\<rparr>"]
    truncated_escape_is_rewritten[of "[Chr 97]" "createTransformer (OtherTarget ''5.3'')"
          "[48, 48]" "rawLiteral [97, 92, 117, 48, 48]"
          "\<lparr>luaTarget = OtherTarget ''5.3'', diagnostics = []\<rparr>"]
    hasBody_rawLiteral[of "[97, 92, 120, 52]"] hasBody_quotedLiteral[of "[97, 92, 120, 52]"]
    hasBody_rawLiteral[of "[97, 92, 117, 48, 48]"] hasBody_quotedLiteral[of "[97, 92, 117, 48, 48]"]
  by (simp add: token_eval number_eval cutOff_rawLiteral cutOff_quotedLiteral)

theorem truncated_hex_escape_not_passed_through:
  "rewrite Lua51 [92, 120, 52] \<noteq> [92, 120, 52]"
  by (simp add: rewrite_rewriteFrom token_eval number_eval)

subsection \<open>The cache and the state of a cached transformer\<close>












subsection \<open>Rewriting twice\<close>

lemma rewriteFrom_pending:
  "map_option (\<lambda>(f, q). f @ q) (rewriteFrom t p xs) = map_option ((@) p) (rewriteOutput t xs)"
proof (induction "length xs" arbitrary: xs p rule: less_induct)
  case less
  note IH = less.hyps
  show ?case
  proof (cases xs)
    case Nil
    then show ?thesis by (simp add: rewriteOutput_def)
  next
    case (Cons c xs')
    note xs = Cons
    show ?thesis
    proof (cases xs')
      case Nil
      then show ?thesis using xs by (simp add: rewriteOutput_def)
    next
      case (Cons d ys)
      have l1: "length (d # ys) < length xs" "length ys < length xs"
        "length (drop 2 ys) < length xs" "length (drop 4 ys) < length xs"
        using xs Cons by auto
      have plain: "map_option (\<lambda>(f, q). f @ q) (rewriteFrom t (p @ e) zs)
            = map_option ((@) p) (map_option (\<lambda>(f, q). f @ q) (rewriteFrom t e zs))"
        if "length zs < length xs" for e zs
        unfolding IH[OF that, of "p @ e"] IH[OF that, of e]
        by (cases "rewriteOutput t zs") simp_all
      show ?thesis
      proof (cases "c = 92")
        case False
        then show ?thesis using plain[OF l1(1), of "[c]"] xs Cons
          by (simp add: rewriteOutput_def)
      next
        case c: True
        show ?thesis
        proof (cases "d = 120")
          case d: True
          show ?thesis
          proof (cases "List.member unsupportedHexTargets t")
            case True
            then show ?thesis using xs Cons c d
              by (cases "rewriteFrom t [] (drop 2 ys)") (auto simp: rewriteOutput_def)
          next
            case False
            then show ?thesis using plain[OF l1(2), of "[92, 120]"] xs Cons c d
              by (simp add: rewriteOutput_def)
          qed
        next
          case nd: False
          show ?thesis
          proof (cases "d = 117")
            case False
            then show ?thesis using plain[OF l1(2), of "[92, d]"] xs Cons c nd
              by (simp add: rewriteOutput_def)
          next
            case u: True
            show ?thesis
            proof (cases "List.member unsupportedUnicodeTargets t")
              case True
              then show ?thesis using xs Cons c u by (simp add: rewriteOutput_def)
            next
              case sup: False
              show ?thesis
              proof (cases "case ys of [] \<Rightarrow> False | e # _ \<Rightarrow> e = 123")
                case True
                then show ?thesis using plain[OF l1(2), of "[92, 117]"] xs Cons c u sup
                  by (simp add: rewriteOutput_def)
              next
                case False
                then show ?thesis using xs Cons c u sup
                  by (cases "rewriteFrom t [] (drop 4 ys)") (auto simp: rewriteOutput_def)
              qed
            qed
          qed
        qed
      qed
    qed
  qed
qed

lemma out_Nil: "rewriteOutput t [] = Some []"
  by (simp add: rewriteOutput_def)

lemma out_single: "rewriteOutput t [c] = Some [c]"
  by (simp add: rewriteOutput_def)

lemma out_plain: "c \<noteq> 92 \<Longrightarrow> rewriteOutput t (c # xs) = map_option ((#) c) (rewriteOutput t xs)"
proof -
  assume "c \<noteq> 92"
  then have "rewriteOutput t (c # xs) = map_option ((@) [c]) (rewriteOutput t xs)"
    using rewriteFrom_pending[of t "[c]" xs]
    by (simp add: rewriteOutput_def[of t "c # xs"] rewriteFrom_plain)
  then show ?thesis by (cases "rewriteOutput t xs") simp_all
qed

lemma out_plains:
  "92 \<notin> set cs \<Longrightarrow> rewriteOutput t (cs @ xs) = map_option ((@) cs) (rewriteOutput t xs)"
proof (induction cs)
  case Nil
  show ?case by (simp add: option.map_ident)
next
  case (Cons c cs)
  then show ?case by (simp add: out_plain option.map_comp comp_def)
qed

lemma out_keep:
  assumes "rewriteFrom t [] (92 # d # ys) = rewriteFrom t [92, d] ys"
  shows "rewriteOutput t (92 # d # ys) = map_option (\<lambda>y. 92 # d # y) (rewriteOutput t ys)"
proof -
  have "rewriteOutput t (92 # d # ys) = map_option ((@) [92, d]) (rewriteOutput t ys)"
    using rewriteFrom_pending[of t "[92, d]" ys] assms
    by (simp add: rewriteOutput_def[of t "92 # d # ys"] del: rewriteFrom.simps)
  then show ?thesis by (cases "rewriteOutput t ys") simp_all
qed

lemma out_default:
  "d \<noteq> 120 \<Longrightarrow> d \<noteq> 117 \<Longrightarrow>
   rewriteOutput t (92 # d # ys) = map_option (\<lambda>y. 92 # d # y) (rewriteOutput t ys)"
  by (rule out_keep) simp

lemma out_hex_native:
  "\<not> List.member unsupportedHexTargets t \<Longrightarrow>
   rewriteOutput t (92 # 120 # ys) = map_option (\<lambda>y. 92 # 120 # y) (rewriteOutput t ys)"
  by (rule out_keep) simp

lemma out_braced:
  "\<not> List.member unsupportedUnicodeTargets t \<Longrightarrow>
   rewriteOutput t (92 # 117 # 123 # zs) = map_option (\<lambda>y. 92 # 117 # y) (rewriteOutput t (123 # zs))"
  by (rule out_keep) simp

lemma out_hex:
  "List.member unsupportedHexTargets t \<Longrightarrow>
   rewriteOutput t (92 # 120 # ys)
     = map_option (\<lambda>y. 92 # numberToString (NumberOfHex (take 2 ys)) @ y)
         (rewriteOutput t (drop 2 ys))"
  by (cases "rewriteFrom t [] (drop 2 ys)") (auto simp: rewriteOutput_def)

lemma out_abort:
  "List.member unsupportedUnicodeTargets t \<Longrightarrow> rewriteOutput t (92 # 117 # ys) = None"
  by (simp add: rewriteOutput_def)

lemma out_bare:
  "\<not> List.member unsupportedUnicodeTargets t \<Longrightarrow> \<not> (case ys of [] \<Rightarrow> False | e # _ \<Rightarrow> e = 123) \<Longrightarrow>
   rewriteOutput t (92 # 117 # ys)
     = map_option (\<lambda>y. [92, 117, 123] @ take 4 ys @ [125] @ y) (rewriteOutput t (drop 4 ys))"
  by (cases "rewriteFrom t [] (drop 4 ys)") (auto simp: rewriteOutput_def)

lemma digitChar_range: "d < 10 \<Longrightarrow> 48 \<le> digitChar d \<and> digitChar d \<le> 57"
proof -
  assume "d < 10"
  then have "unat (of_nat (48 + d) :: 16 word) = 48 + d"
    by (simp add: unat_of_nat del: of_nat_add)
  then show ?thesis using \<open>d < 10\<close> by (simp add: digitChar_def word_le_nat_alt del: of_nat_add)
qed

lemma toString10_digits: "c \<in> set (toString10 n) \<Longrightarrow> 48 \<le> c \<and> c \<le> 57"
proof (induction n rule: toString10.induct)
  case (1 n)
  show ?case
  proof (cases "n < 10")
    case True
    with 1 show ?thesis using digitChar_range[of n] by (simp add: toString10_small)
  next
    case False
    with 1 show ?thesis using digitChar_range[of "n mod 10"]
      by (auto simp: toString10_big)
  qed
qed

lemma toString10_nonempty: "toString10 n \<noteq> []"
  by (subst toString10.simps) simp

lemma numberToString_shape:
  "\<exists>n0 ns. numberToString v = n0 # ns \<and> n0 \<noteq> 92 \<and> n0 \<noteq> 120 \<and> n0 \<noteq> 117 \<and> 92 \<notin> set ns"
proof (cases v)
  case None
  then show ?thesis by (simp add: numberToString_def)
next
  case (Some n)
  obtain n0 ns where s: "toString10 n = n0 # ns"
    using toString10_nonempty[of n] by (cases "toString10 n") auto
  have "\<And>c. c \<in> set (n0 # ns) \<Longrightarrow> 48 \<le> c \<and> c \<le> 57"
    using toString10_digits[of _ n] s by simp
  then have r: "\<And>c. c \<in> set (n0 # ns) \<Longrightarrow> c \<le> 57" by blast
  have "n0 \<noteq> 92 \<and> n0 \<noteq> 120 \<and> n0 \<noteq> 117 \<and> 92 \<notin> set ns"
    using r[of 92] r[of 120] r[of 117] by auto
  with s Some show ?thesis by (simp add: numberToString_def)
qed

lemma bare_plain: "c \<noteq> 92 \<Longrightarrow> barePayloads t (c # xs) = barePayloads t xs"
  by (cases xs) simp_all

lemma out_idempotent:
  "list_all (\<lambda>P. 92 \<notin> set P) (barePayloads t xs) \<Longrightarrow> rewriteOutput t xs = Some y \<Longrightarrow>
   rewriteOutput t y = Some y"
proof (induction "length xs" arbitrary: xs y rule: less_induct)
  case less
  note IH = less.hyps
  note clean = less.prems(1)
  note out = less.prems(2)
  show ?case
  proof (cases xs)
    case Nil
    then show ?thesis using out by (simp add: out_Nil)
  next
    case (Cons c xs')
    note xs = Cons
    show ?thesis
    proof (cases "c = 92")
      case False
      from out obtain y' where y: "rewriteOutput t xs' = Some y'" "y = c # y'"
        using False by (auto simp: xs out_plain)
      have "rewriteOutput t y' = Some y'"
        using IH[of xs' y'] clean y(1) False by (simp add: xs bare_plain)
      then show ?thesis using False by (simp add: y(2) out_plain)
    next
      case c: True
      show ?thesis
      proof (cases xs')
        case Nil
        then have "y = [92]" using out xs c by (simp add: out_single)
        then show ?thesis by (simp add: out_single)
      next
        case (Cons d ys)
        have l: "length ys < length xs" "length (drop 2 ys) < length xs"
          "length (drop 4 ys) < length xs"
          using xs Cons by auto
        have keep: ?thesis
          if o: "rewriteOutput t (92 # d # ys) = map_option (\<lambda>z. 92 # d # z) (rewriteOutput t ys)"
            and b: "barePayloads t (92 # d # ys) = barePayloads t ys"
            and r: "\<And>z. rewriteOutput t ys = Some z \<Longrightarrow> rewriteOutput t z = Some z \<Longrightarrow>
                      rewriteOutput t (92 # d # z) = Some (92 # d # z)"
        proof -
          from out obtain y' where y: "rewriteOutput t ys = Some y'" "y = 92 # d # y'"
            by (auto simp: xs Cons c o)
          have "list_all (\<lambda>P. 92 \<notin> set P) (barePayloads t ys)"
            using clean unfolding xs Cons c b .
          then have "rewriteOutput t y' = Some y'"
            using IH[OF l(1) _ y(1)] by simp
          from r[OF y(1) this] show ?thesis by (simp add: y(2))
        qed
        show ?thesis
        proof (cases "d = 120")
          case d: True
          show ?thesis
          proof (cases "List.member unsupportedHexTargets t")
            case False
            then show ?thesis using d
              by (intro keep) (simp_all add: out_hex_native del: rewriteOutput_def)
          next
            case True
            obtain n0 ns where n: "numberToString (NumberOfHex (take 2 ys)) = n0 # ns"
              "n0 \<noteq> 92" "n0 \<noteq> 120" "n0 \<noteq> 117" "92 \<notin> set ns"
              using numberToString_shape by blast
            from out obtain y' where y: "rewriteOutput t (drop 2 ys) = Some y'"
              "y = 92 # n0 # ns @ y'"
              using True by (auto simp: xs Cons c d out_hex n(1))
            have "rewriteOutput t y' = Some y'"
              using IH[OF l(2) _ y(1)] clean True by (simp add: xs Cons c d)
            then show ?thesis using n by (simp add: y(2) out_default out_plains)
          qed
        next
          case nd: False
          show ?thesis
          proof (cases "d = 117")
            case False
            then show ?thesis using nd by (intro keep) (simp_all add: out_default)
          next
            case u: True
            show ?thesis
            proof (cases "List.member unsupportedUnicodeTargets t")
              case True
              then show ?thesis using out by (simp add: xs Cons c u out_abort)
            next
              case sup: False
              show ?thesis
              proof (cases "case ys of [] \<Rightarrow> False | e # _ \<Rightarrow> e = 123")
                case True
                then obtain zs where zs: "ys = 123 # zs" by (auto split: list.splits)
                show ?thesis
                proof (rule keep)
                  show "rewriteOutput t (92 # d # ys) = map_option (\<lambda>z. 92 # d # z) (rewriteOutput t ys)"
                    using sup by (simp add: u zs out_braced)
                  show "barePayloads t (92 # d # ys) = barePayloads t ys"
                    using sup by (simp add: u zs)
                  fix z assume a: "rewriteOutput t ys = Some z" "rewriteOutput t z = Some z"
                  then obtain z' where "z = 123 # z'" by (auto simp: zs out_plain)
                  then show "rewriteOutput t (92 # d # z) = Some (92 # d # z)"
                    using a(2) sup by (simp add: u out_braced)
                qed
              next
                case bare: False
                have p: "92 \<notin> set (take 4 ys)"
                  and clean': "list_all (\<lambda>P. 92 \<notin> set P) (barePayloads t (drop 4 ys))"
                  using clean sup bare by (simp_all add: xs Cons c u)
                from out obtain y' where y: "rewriteOutput t (drop 4 ys) = Some y'"
                  "y = [92, 117, 123] @ take 4 ys @ [125] @ y'"
                  using sup bare by (auto simp: xs Cons c u out_bare)
                have i: "rewriteOutput t y' = Some y'" using IH[OF l(3) clean' y(1)] .
                have "92 \<notin> set (123 # take 4 ys @ [125])" using p by simp
                from out_plains[OF this, of t y'] i
                have "rewriteOutput t (123 # take 4 ys @ 125 # y') = Some (123 # take 4 ys @ 125 # y')"
                  by simp
                then show ?thesis using sup by (simp add: y(2) out_braced)
              qed
            qed
          qed
        qed
      qed
    qed
  qed
qed

lemma barePayloads_unsupported:
  "List.member unsupportedUnicodeTargets t \<Longrightarrow> barePayloads t xs = []"
proof (induction t xs rule: barePayloads.induct)
  case (3 t c d ys)
  then show ?case using unsupportedHex_subset[of t] by auto
qed simp_all

lemma rewrite_rewriteOutput:
  "rewrite t raw = (case rewriteOutput t raw of None \<Rightarrow> raw | Some y \<Rightarrow> y)"
  by (simp add: rewrite_rewriteFrom rewriteOutput_def split: option.splits)

text \<open>
  C7, as stated, says \<open>rewrite t (rewrite t x) = rewrite t x\<close> for every text and target.
  Against a target with Unicode escapes the payload of a bare \<open>\u\<close> is copied between
  braces unread, and a backslash in it is met by the second scan only: \<open>\u\u\<close> becomes
  \<open>\u{\u}\<close> and then \<open>\u{\u{}}\<close>.  C7 amended: for every target and every text in which no
  payload of a bare \<open>\u\<close> escape that the scan rewrites contains a backslash, rewriting
  the result of a rewrite yields the same text again; in particular this holds for
  every text against a target without Unicode escapes.
\<close>

theorem rewrite_idempotent_on_clean_payloads:
  "(list_all (\<lambda>P. 92 \<notin> set P) (barePayloads t x) \<longrightarrow> rewrite t (rewrite t x) = rewrite t x)
   \<and> (List.member unsupportedUnicodeTargets t \<longrightarrow> rewrite t (rewrite t x) = rewrite t x)"
proof -
  have 1: "rewrite t (rewrite t x) = rewrite t x"
    if "list_all (\<lambda>P. 92 \<notin> set P) (barePayloads t x)"
  proof (cases "rewriteOutput t x")
    case None
    then show ?thesis by (simp add: rewrite_rewriteOutput)
  next
    case (Some y)
    from out_idempotent[OF that Some] Some show ?thesis by (simp add: rewrite_rewriteOutput)
  qed
  then show ?thesis using barePayloads_unsupported[of t x] by auto
qed

theorem rewrite_idempotent_on_clean_payloads_witness:
  "list_all (\<lambda>P. 92 \<notin> set P) (barePayloads (OtherTarget ''5.3'') [97, 92, 117, 48, 48, 52, 49, 92, 120, 52, 49])
   \<and> rewrite (OtherTarget ''5.3'') [97, 92, 117, 48, 48, 52, 49, 92, 120, 52, 49]
       = [97, 92, 117, 123, 48, 48, 52, 49, 125, 92, 120, 52, 49]
   \<and> rewrite (OtherTarget ''5.3'') (rewrite (OtherTarget ''5.3'') [97, 92, 117, 48, 48, 52, 49, 92, 120, 52, 49])
       = [97, 92, 117, 123, 48, 48, 52, 49, 125, 92, 120, 52, 49]
   \<and> List.member unsupportedUnicodeTargets Lua51
   \<and> rewrite Lua51 (rewrite Lua51 [92, 120, 52, 49, 92, 120]) = [92, 54, 53, 92, 78, 97, 78]"
  using rewrite_idempotent_on_clean_payloads[of "OtherTarget ''5.3''" "[97, 92, 117, 48, 48, 52, 49, 92, 120, 52, 49]"]
    rewrite_idempotent_on_clean_payloads[of Lua51 "[92, 120, 52, 49, 92, 120]"]
  by (simp add: rewrite_rewriteFrom token_eval number_eval)

theorem rewrite_not_idempotent:
  "rewrite (OtherTarget ''5.3'') (rewrite (OtherTarget ''5.3'') [92, 117, 92, 117])
     \<noteq> rewrite (OtherTarget ''5.3'') [92, 117, 92, 117]"
  by (simp add: rewrite_rewriteFrom token_eval number_eval)

end
